theory Spec2Isabelle
  imports Main "HOL-Library.Word" "HOL-Library.Multiset"
begin

section \<open>Data model of \<^verbatim>\<open>thread_pool.hpp\<close>\<close>

text \<open>
  \<^verbatim>\<open>ui32\<close> is \<^verbatim>\<open>std::uint_fast32_t\<close>, taken at the width the standard guarantees, and
  \<^verbatim>\<open>ui64\<close> is \<^verbatim>\<open>std::uint_fast64_t\<close>. Arithmetic on both wraps around.
\<close>

type_synonym ui32 = "32 word"
type_synonym ui64 = "64 word"

text \<open>
  What can leave a callable instead of a normal return: an exception \<open>e\<close> of the user's
  code, or the \<^verbatim>\<open>std::future_error\<close> of a promise that is set a second time.
\<close>

datatype 'e failure = Thrown 'e | Promise_already_satisfied

text \<open>The shared state of a \<^verbatim>\<open>std::promise<R>\<close> and its \<^verbatim>\<open>std::future<R>\<close>.\<close>

datatype ('e, 'r) shared_state = Not_ready | Has_value 'r | Has_exception "'e failure"

text \<open>
  The memory outside the pool object that queued tasks capture: the promises allocated by
  \<^verbatim>\<open>submit\<close> (one typed heap for \<^verbatim>\<open>std::promise<bool>\<close>, one for \<^verbatim>\<open>std::promise<R>\<close>), the
  local countdown \<^verbatim>\<open>blocks_running\<close> of each \<^verbatim>\<open>parallelize_loop\<close> call, and the next free
  address. \<open>calls\<close> records, in the order they happen, the calls \<^verbatim>\<open>loop(start, end)\<close> that the
  tasks of \<^verbatim>\<open>parallelize_loop\<close> make.
\<close>

record ('e, 'v) world =
  bool_promises :: "nat \<Rightarrow> ('e, bool) shared_state"
  value_promises :: "nat \<Rightarrow> ('e, 'v) shared_state"
  blocks_running :: "nat \<Rightarrow> ui32"
  fresh :: nat
  calls :: "(int \<times> int) list"

text \<open>
  A queued \<^verbatim>\<open>std::function<void()>\<close>: run on the captured memory, it either returns
  (\<open>None\<close>) or an exception leaves it (\<open>Some f\<close>). Task bodies act on the captured memory
  only; they do not call back into the pool.
\<close>

type_synonym ('e, 'v) task = "('e, 'v) world \<Rightarrow> 'e failure option \<times> ('e, 'v) world"

text \<open>
  One element of the \<^verbatim>\<open>threads\<close> array: a default-constructed \<^verbatim>\<open>std::thread\<close>, a worker at
  the head of its loop, a worker between \<^verbatim>\<open>tasks.pop()\<close> and \<^verbatim>\<open>--tasks_total\<close> holding the
  task it took, or a worker that has left \<^verbatim>\<open>worker()\<close>.
\<close>

datatype ('e, 'v) thread = Not_started | Idle | Executing "('e, 'v) task" | Exited

datatype cv = Task_available | Tasks_done
datatype wake = Notify_one | Notify_all

text \<open>
  The effects of the pool's own statements that other threads observe, in program order:
  notifications of the two condition variables and writes of the two atomic flags.
\<close>

datatype event = Notify cv wake | Set_running bool | Set_paused bool

text \<open>
  The members of \<^verbatim>\<open>class thread_pool\<close> (\<open>tasks\<close> to \<open>paused\<close>), the memory its tasks
  capture, and the trace of observable effects.
\<close>

record ('e, 'v) pool =
  tasks :: "('e, 'v) task list"
  tasks_total :: ui32
  thread_count :: ui32
  threads :: "('e, 'v) thread list"
  running :: bool
  paused :: bool
  world :: "('e, 'v) world"
  events :: "event list"

text \<open>
  How a call can end other than by returning: an exception leaves \<^verbatim>\<open>worker()\<close>, the entry
  function of a \<^verbatim>\<open>std::thread\<close>, so \<^verbatim>\<open>std::terminate\<close> ends the process; or an integer
  division by zero.
\<close>

datatype 'e fault = Terminate "'e failure" | Division_by_zero

text \<open>
  The atomic steps other threads take while a caller is blocked: worker \<open>i\<close> advances,
  another caller enqueues, submits, pauses or resumes, or the blocked caller itself is woken
  (by a notification or spuriously) and evaluates its predicate again. The outcome of
  running a user callable is \<open>Inl e\<close> (it raises \<open>e\<close>) or \<open>Inr r\<close> (it returns \<open>r\<close>).
\<close>

datatype ('e, 'v) action =
  Worker nat | Push "('e, 'v) task" | Submit_void "'e + unit" | Submit_value "'e + 'v"
  | Pause | Resume | Wake

text \<open>
  The result of a blocking call run against a schedule: \<open>None\<close> when the schedule ends
  with the caller still blocked, else the fault that ended the process or the state at
  return with the rest of the schedule.
\<close>

type_synonym ('e, 'v) blocking =
  "('e fault + ('e, 'v) pool \<times> ('e, 'v) action list) option"

section \<open>Operations\<close>

definition notify :: "cv \<Rightarrow> wake \<Rightarrow> ('e, 'v) pool \<Rightarrow> ('e, 'v) pool" where
  "notify c k s = s\<lparr>events := events s @ [Notify c k]\<rparr>"

subsection \<open>Counts (lines 76-112 and 386-409)\<close>

definition get_tasks_queued_unprotected :: "('e, 'v) pool \<Rightarrow> ui64" where
  "get_tasks_queued_unprotected s = of_nat (length (tasks s))"

definition get_tasks_running_unprotected :: "('e, 'v) pool \<Rightarrow> ui32" where
  "get_tasks_running_unprotected s =
     tasks_total s - ucast (get_tasks_queued_unprotected s)"

definition get_tasks_total_unprotected :: "('e, 'v) pool \<Rightarrow> ui32" where
  "get_tasks_total_unprotected s = tasks_total s"

definition get_tasks_queued :: "('e, 'v) pool \<Rightarrow> ui64" where
  "get_tasks_queued s = get_tasks_queued_unprotected s"

definition get_tasks_running :: "('e, 'v) pool \<Rightarrow> ui32" where
  "get_tasks_running s = get_tasks_running_unprotected s"

definition get_tasks_total :: "('e, 'v) pool \<Rightarrow> ui32" where
  "get_tasks_total s = get_tasks_total_unprotected s"

definition get_thread_count :: "('e, 'v) pool \<Rightarrow> ui32" where
  "get_thread_count s = thread_count s"

subsection \<open>Enqueueing (lines 175-200)\<close>

definition push_task :: "('e, 'v) task \<Rightarrow> ('e, 'v) pool \<Rightarrow> ('e, 'v) pool" where
  "push_task t s =
     notify Task_available Notify_one
       (s\<lparr>tasks := tasks s @ [t], tasks_total := tasks_total s + 1\<rparr>)"

text \<open>
  The \<^verbatim>\<open>std::function<void()>\<close> built from a user callable (with its arguments bound, for
  the second overload of \<^verbatim>\<open>push_task\<close>): nothing is wrapped around the call.
\<close>

definition plain_task :: "'e + unit \<Rightarrow> ('e, 'v) task" where
  "plain_task c w = (case c of Inl e \<Rightarrow> (Some (Thrown e), w) | Inr _ \<Rightarrow> (None, w))"

subsection \<open>Promises and \<^verbatim>\<open>submit\<close> (lines 232-291)\<close>

definition set_value :: "'r \<Rightarrow> ('e, 'r) shared_state \<Rightarrow> 'e failure + ('e, 'r) shared_state" where
  "set_value v c =
     (case c of Not_ready \<Rightarrow> Inr (Has_value v) | _ \<Rightarrow> Inl Promise_already_satisfied)"

definition set_exception ::
  "'e failure \<Rightarrow> ('e, 'r) shared_state \<Rightarrow> 'e failure + ('e, 'r) shared_state" where
  "set_exception f c =
     (case c of Not_ready \<Rightarrow> Inr (Has_exception f) | _ \<Rightarrow> Inl Promise_already_satisfied)"

text \<open>\<^verbatim>\<open>std::future::get\<close>: blocks (\<open>None\<close>) until the state is ready, then returns the value
  or raises the stored exception again.\<close>

definition future_get :: "('e, 'r) shared_state \<Rightarrow> ('e failure + 'r) option" where
  "future_get c =
     (case c of Not_ready \<Rightarrow> None | Has_value v \<Rightarrow> Some (Inr v)
      | Has_exception f \<Rightarrow> Some (Inl f))"

text \<open>The handler \<^verbatim>\<open>catch (...) { try { set_exception(current_exception()); } catch (...) {} }\<close>
  of both lambdas.\<close>

definition catch_all ::
  "'e failure \<Rightarrow> ('e, 'r) shared_state \<Rightarrow> 'e failure option \<times> ('e, 'r) shared_state" where
  "catch_all f c = (case set_exception f c of Inr c' \<Rightarrow> (None, c') | Inl _ \<Rightarrow> (None, c))"

text \<open>The body of the lambda of the void overload (lines 239-253), on its promise.\<close>

definition submit_void_body ::
  "'e + unit \<Rightarrow> ('e, bool) shared_state \<Rightarrow> 'e failure option \<times> ('e, bool) shared_state" where
  "submit_void_body c p =
     (case c of
        Inl e \<Rightarrow> catch_all (Thrown e) p
      | Inr _ \<Rightarrow>
          (case set_value True p of Inr p' \<Rightarrow> (None, p') | Inl f \<Rightarrow> catch_all f p))"

text \<open>The body of the lambda of the value overload (lines 275-288), on its promise.\<close>

definition submit_value_body ::
  "'e + 'r \<Rightarrow> ('e, 'r) shared_state \<Rightarrow> 'e failure option \<times> ('e, 'r) shared_state" where
  "submit_value_body c p =
     (case c of
        Inl e \<Rightarrow> catch_all (Thrown e) p
      | Inr v \<Rightarrow>
          (case set_value v p of Inr p' \<Rightarrow> (None, p') | Inl f \<Rightarrow> catch_all f p))"

definition submit_void_task :: "'e + unit \<Rightarrow> nat \<Rightarrow> ('e, 'v) task" where
  "submit_void_task c a w =
     (case submit_void_body c (bool_promises w a) of
        (r, p) \<Rightarrow> (r, w\<lparr>bool_promises := (bool_promises w)(a := p)\<rparr>))"

definition submit_value_task :: "'e + 'v \<Rightarrow> nat \<Rightarrow> ('e, 'v) task" where
  "submit_value_task c a w =
     (case submit_value_body c (value_promises w a) of
        (r, p) \<Rightarrow> (r, w\<lparr>value_promises := (value_promises w)(a := p)\<rparr>))"

text \<open>Both overloads return the address of the new promise as the future.\<close>

definition submit_void :: "'e + unit \<Rightarrow> ('e, 'v) pool \<Rightarrow> nat \<times> ('e, 'v) pool" where
  "submit_void c s =
     (let a = fresh (world s);
          w = (world s)\<lparr>bool_promises := (bool_promises (world s))(a := Not_ready),
                        fresh := a + 1\<rparr>
      in (a, push_task (submit_void_task c a) (s\<lparr>world := w\<rparr>)))"

definition submit_value :: "'e + 'v \<Rightarrow> ('e, 'v) pool \<Rightarrow> nat \<times> ('e, 'v) pool" where
  "submit_value c s =
     (let a = fresh (world s);
          w = (world s)\<lparr>value_promises := (value_promises (world s))(a := Not_ready),
                        fresh := a + 1\<rparr>
      in (a, push_task (submit_value_task c a) (s\<lparr>world := w\<rparr>)))"

subsection \<open>Pausing (lines 314-324)\<close>

definition pause :: "('e, 'v) pool \<Rightarrow> ('e, 'v) pool" where
  "pause s = s\<lparr>paused := True, events := events s @ [Set_paused True]\<rparr>"

definition resume :: "('e, 'v) pool \<Rightarrow> ('e, 'v) pool" where
  "resume s =
     notify Task_available Notify_all
       (s\<lparr>paused := False, events := events s @ [Set_paused False]\<rparr>)"

definition set_running :: "bool \<Rightarrow> ('e, 'v) pool \<Rightarrow> ('e, 'v) pool" where
  "set_running b s = s\<lparr>running := b, events := events s @ [Set_running b]\<rparr>"

subsection \<open>The worker (lines 358-379)\<close>

text \<open>
  One step of worker \<open>i\<close>. At the head of the loop it leaves when \<open>running\<close> is false,
  stays in \<^verbatim>\<open>wait\<close> while the queue is empty, goes round the loop without taking a task
  while the pool is paused, and otherwise takes the front task. Holding a task, it calls
  it with no handler around the call: when the call returns it decrements \<open>tasks_total\<close>
  and notifies \<open>tasks_done\<close>; when an exception leaves the call, it leaves \<^verbatim>\<open>worker()\<close> too.
\<close>

definition worker :: "nat \<Rightarrow> ('e, 'v) pool \<Rightarrow> 'e fault + ('e, 'v) pool" where
  "worker i s =
     (if i < length (threads s) then
        (case threads s ! i of
           Idle \<Rightarrow>
             (if \<not> running s then Inr (s\<lparr>threads := (threads s)[i := Exited]\<rparr>)
              else if tasks s = [] then Inr s
              else if paused s then Inr s
              else Inr (s\<lparr>threads := (threads s)[i := Executing (hd (tasks s))],
                         tasks := tl (tasks s)\<rparr>))
         | Executing t \<Rightarrow>
             (case t (world s) of
                (Some f, w) \<Rightarrow> Inl (Terminate f)
              | (None, w) \<Rightarrow>
                  Inr (notify Tasks_done Notify_one
                         (s\<lparr>world := w, tasks_total := tasks_total s - 1,
                            threads := (threads s)[i := Idle]\<rparr>)))
         | _ \<Rightarrow> Inr s)
      else Inr s)"

fun step :: "('e, 'v) action \<Rightarrow> ('e, 'v) pool \<Rightarrow> 'e fault + ('e, 'v) pool" where
  "step (Worker i) s = worker i s"
| "step (Push t) s = Inr (push_task t s)"
| "step (Submit_void c) s = Inr (snd (submit_void c s))"
| "step (Submit_value c) s = Inr (snd (submit_value c s))"
| "step Pause s = Inr (pause s)"
| "step Resume s = Inr (resume s)"
| "step Wake s = Inr s"

fun exec :: "('e, 'v) action list \<Rightarrow> ('e, 'v) pool \<Rightarrow> 'e fault + ('e, 'v) pool" where
  "exec [] s = Inr s"
| "exec (a # as) s = (case step a s of Inl f \<Rightarrow> Inl f | Inr s' \<Rightarrow> exec as s')"

subsection \<open>Blocking calls\<close>

text \<open>
  \<^verbatim>\<open>condition_variable::wait(lock, pred)\<close> is \<^verbatim>\<open>while (!pred()) wait(lock);\<close>: the predicate
  is evaluated on entry and after each wake-up of the caller; while the caller sleeps the
  other threads run.
\<close>

fun cv_sleep ::
  "(('e, 'v) pool \<Rightarrow> bool) \<Rightarrow> ('e, 'v) action list \<Rightarrow> ('e, 'v) pool \<Rightarrow> ('e, 'v) blocking" where
  "cv_sleep P [] s = None"
| "cv_sleep P (a # as) s =
     (case a of
        Wake \<Rightarrow> (if P s then Some (Inr (s, as)) else cv_sleep P as s)
      | _ \<Rightarrow> (case step a s of Inl f \<Rightarrow> Some (Inl f) | Inr s' \<Rightarrow> cv_sleep P as s'))"

definition cv_wait ::
  "(('e, 'v) pool \<Rightarrow> bool) \<Rightarrow> ('e, 'v) action list \<Rightarrow> ('e, 'v) pool \<Rightarrow> ('e, 'v) blocking" where
  "cv_wait P sched s = (if P s then Some (Inr (s, sched)) else cv_sleep P sched s)"

text \<open>The predicate of \<^verbatim>\<open>wait_for_tasks\<close> (lines 299-308).\<close>

definition tasks_done_pred :: "('e, 'v) pool \<Rightarrow> bool" where
  "tasks_done_pred s =
     (if \<not> paused s then tasks_total s = 0 else get_tasks_running_unprotected s = 0)"

definition wait_for_tasks :: "('e, 'v) action list \<Rightarrow> ('e, 'v) pool \<Rightarrow> ('e, 'v) blocking" where
  "wait_for_tasks sched s = cv_wait tasks_done_pred sched s"

text \<open>Sequencing of blocking calls.\<close>

definition and_then ::
  "('e, 'v) blocking \<Rightarrow> (('e, 'v) action list \<Rightarrow> ('e, 'v) pool \<Rightarrow> ('e, 'v) blocking)
     \<Rightarrow> ('e, 'v) blocking" where
  "and_then m k =
     (case m of None \<Rightarrow> None | Some (Inl f) \<Rightarrow> Some (Inl f)
      | Some (Inr (s, sched)) \<Rightarrow> k sched s)"

subsection \<open>Threads (lines 334-353)\<close>

definition create_threads :: "('e, 'v) pool \<Rightarrow> ('e, 'v) pool" where
  "create_threads s =
     s\<lparr>threads := fold (\<lambda>i ths. ths[i := Idle]) [0..<unat (thread_count s)] (threads s)\<rparr>"

definition has_exited :: "nat \<Rightarrow> ('e, 'v) pool \<Rightarrow> bool" where
  "has_exited i s =
     (i < length (threads s) \<and> (case threads s ! i of Exited \<Rightarrow> True | _ \<Rightarrow> False))"

text \<open>\<^verbatim>\<open>threads[i].join()\<close> returns once worker \<open>i\<close> has left \<^verbatim>\<open>worker()\<close>.\<close>

fun join :: "nat \<Rightarrow> ('e, 'v) action list \<Rightarrow> ('e, 'v) pool \<Rightarrow> ('e, 'v) blocking" where
  "join i [] s = (if has_exited i s then Some (Inr (s, [])) else None)"
| "join i (a # as) s =
     (if has_exited i s then Some (Inr (s, a # as))
      else (case step a s of Inl f \<Rightarrow> Some (Inl f) | Inr s' \<Rightarrow> join i as s'))"

fun join_each :: "nat list \<Rightarrow> ('e, 'v) action list \<Rightarrow> ('e, 'v) pool \<Rightarrow> ('e, 'v) blocking" where
  "join_each [] sched s = Some (Inr (s, sched))"
| "join_each (i # is) sched s = and_then (join i sched s) (join_each is)"

definition destroy_threads :: "('e, 'v) action list \<Rightarrow> ('e, 'v) pool \<Rightarrow> ('e, 'v) blocking" where
  "destroy_threads sched s =
     join_each [0..<unat (thread_count s)] sched (notify Task_available Notify_all s)"

subsection \<open>Construction, destruction and \<^verbatim>\<open>reset\<close> (lines 51-65 and 207-221)\<close>

definition empty_world :: "('e, 'v) world" where
  "empty_world =
     \<lparr>bool_promises = (\<lambda>_. Not_ready), value_promises = (\<lambda>_. Not_ready),
      blocks_running = (\<lambda>_. 0), fresh = 0, calls = []\<rparr>"

definition thread_pool :: "ui32 \<Rightarrow> ('e, 'v) pool" where
  "thread_pool n =
     create_threads
       \<lparr>tasks = [], tasks_total = 0, thread_count = n,
        threads = replicate (unat n) Not_started,
        running = True, paused = False, world = empty_world, events = []\<rparr>"

definition thread_pool_dtor :: "('e, 'v) action list \<Rightarrow> ('e, 'v) pool \<Rightarrow> ('e, 'v) blocking" where
  "thread_pool_dtor sched s =
     and_then (wait_for_tasks sched s)
       (\<lambda>sched1 s1. destroy_threads sched1 (set_running False s1))"

definition reset :: "ui32 \<Rightarrow> ('e, 'v) action list \<Rightarrow> ('e, 'v) pool \<Rightarrow> ('e, 'v) blocking" where
  "reset n sched s =
     (let was_paused = paused s in
      and_then (wait_for_tasks sched (pause s))
        (\<lambda>sched1 s1.
           and_then (destroy_threads sched1 (set_running False s1))
             (\<lambda>sched2 s2.
                let s3 = s2\<lparr>thread_count := n, threads := replicate (unat n) Not_started\<rparr>;
                    s4 = (if \<not> was_paused then resume s3 else s3)
                in Some (Inr (create_threads (set_running True s4), sched2)))))"

subsection \<open>Integer types of C++\<close>

text \<open>
  An integer type is given by its signedness and its width. A value of the type is taken
  as the integer it denotes; \<open>wrap\<close> is the conversion of an integer to the type, which
  keeps the value modulo \<open>2 ^ bits\<close>. Arithmetic on operands of a type narrower than
  \<^verbatim>\<open>int\<close>, taken as 32 bits wide, is done in \<^verbatim>\<open>int\<close> (integral promotion). The overflow of
  signed arithmetic, which C++ leaves undefined, is taken as the same wrap-around.
\<close>

record itype =
  is_signed :: bool
  bits :: nat

definition wrap :: "itype \<Rightarrow> int \<Rightarrow> int" where
  "wrap ty x =
     (if is_signed ty then (x + 2 ^ (bits ty - 1)) mod 2 ^ bits ty - 2 ^ (bits ty - 1)
      else x mod 2 ^ bits ty)"

definition promote :: "itype \<Rightarrow> itype" where
  "promote ty = (if bits ty < 32 then \<lparr>is_signed = True, bits = 32\<rparr> else ty)"



text \<open>\<^verbatim>\<open>int\<close> and \<^verbatim>\<open>unsigned int\<close>.\<close>

definition int_type :: itype where
  "int_type = \<lparr>is_signed = True, bits = 32\<rparr>"

definition unsigned_type :: itype where
  "unsigned_type = \<lparr>is_signed = False, bits = 32\<rparr>"

subsection \<open>\<^verbatim>\<open>parallelize_loop\<close> (lines 125-167)\<close>

text \<open>
  The arguments \<open>first_index\<close> and \<open>index_after_last\<close> are the values passed, of types
  \<^verbatim>\<open>T1\<close> and \<^verbatim>\<open>T2\<close>. The common type \<^verbatim>\<open>T\<close> of line 128 is computed by the standard library
  from \<^verbatim>\<open>T1\<close> and \<^verbatim>\<open>T2\<close>; it is the parameter \<open>ty\<close>. The conversions between \<^verbatim>\<open>T\<close>, \<^verbatim>\<open>ui64\<close>
  and \<^verbatim>\<open>ui32\<close> are written out.
\<close>

text \<open>Lines 129-139: convert both bounds to \<^verbatim>\<open>T\<close>, swap them if reversed, then
  \<^verbatim>\<open>last_index--\<close>.\<close>

definition loop_range :: "itype \<Rightarrow> int \<Rightarrow> int \<Rightarrow> int \<times> int" where
  "loop_range ty first_index index_after_last =
     (let the_first_index = wrap ty first_index;
          last_index = wrap ty index_after_last
      in if last_index < the_first_index then (last_index, wrap ty (the_first_index - 1))
         else (the_first_index, wrap ty (last_index - 1)))"

text \<open>Lines 143-148: the block size and the number of blocks.\<close>

definition loop_split :: "ui64 \<Rightarrow> ui32 \<Rightarrow> ui64 \<times> ui32" where
  "loop_split total_size num_blocks =
     (let block_size = total_size div ucast num_blocks
      in if block_size = 0
         then (1, if (ucast total_size :: ui32) > 1 then ucast total_size else 1)
         else (block_size, num_blocks))"

text \<open>Lines 140-148, reached when the range is not empty: the normalised inclusive range,
  the block size and the number of blocks. The size is computed in the promoted \<^verbatim>\<open>T\<close> and
  then converted to \<^verbatim>\<open>ui64\<close>.\<close>

definition loop_plan ::
  "itype \<Rightarrow> int \<Rightarrow> int \<Rightarrow> ui32 \<Rightarrow> ui32 \<Rightarrow> 'e fault + (int \<times> int \<times> ui64 \<times> ui32)" where
  "loop_plan ty first_index index_after_last num_blocks tc =
     (case loop_range ty first_index index_after_last of
        (the_first_index, last_index) \<Rightarrow>
          (let nb = (if num_blocks = 0 then tc else num_blocks);
               total_size =
                 (of_int (wrap (promote ty)
                            (wrap (promote ty) (last_index - the_first_index) + 1)) :: ui64)
           in if nb = 0 then Inl Division_by_zero
              else (case loop_split total_size nb of
                      (block_size, nb') \<Rightarrow> Inr (the_first_index, last_index, block_size, nb'))))"

text \<open>Lines 154-155: \<^verbatim>\<open>start\<close> and \<^verbatim>\<open>end\<close> of block \<open>t\<close>. The product is computed in \<^verbatim>\<open>ui64\<close>
  and converted to \<^verbatim>\<open>T\<close>, the sum is computed in the promoted \<^verbatim>\<open>T\<close> and stored in a \<^verbatim>\<open>T\<close>.\<close>

definition loop_block ::
  "itype \<Rightarrow> int \<Rightarrow> int \<Rightarrow> ui64 \<Rightarrow> ui32 \<Rightarrow> ui32 \<Rightarrow> int \<times> int" where
  "loop_block ty the_first_index last_index block_size num_blocks t =
     (wrap ty (wrap (promote ty) (wrap ty (uint (ucast t * block_size)) + the_first_index)),
      wrap ty
        (if t = num_blocks - 1 then wrap (promote ty) (last_index + 1)
         else wrap (promote ty)
                (wrap ty (uint (ucast (t + 1) * block_size)) + the_first_index)))"

text \<open>The blocks of the \<^verbatim>\<open>for\<close> loop of lines 152-164, in the order they are pushed.\<close>

definition plan_blocks :: "itype \<Rightarrow> int \<times> int \<times> ui64 \<times> ui32 \<Rightarrow> (int \<times> int) list" where
  "plan_blocks ty p =
     (case p of (the_first_index, last_index, block_size, num_blocks) \<Rightarrow>
        map (\<lambda>t. loop_block ty the_first_index last_index block_size num_blocks (of_nat t))
          [0..<unat num_blocks])"

text \<open>The \<open>(start, end)\<close> pairs for which \<^verbatim>\<open>parallelize_loop\<close> pushes a task.\<close>

definition loop_blocks ::
  "itype \<Rightarrow> int \<Rightarrow> int \<Rightarrow> ui32 \<Rightarrow> ui32 \<Rightarrow> 'e fault + (int \<times> int) list" where
  "loop_blocks ty first_index index_after_last num_blocks tc =
     (if wrap ty first_index = wrap ty index_after_last then Inr []
      else (case loop_plan ty first_index index_after_last num_blocks tc of
              Inl f \<Rightarrow> Inl f
            | Inr p \<Rightarrow> Inr (plan_blocks ty p)))"

text \<open>
  The lambda of lines 156-163, with the countdown \<^verbatim>\<open>blocks_running\<close> at address \<open>a\<close>. It
  calls the user's \<^verbatim>\<open>loop(start, end)\<close>, which returns (\<open>None\<close>) or raises (\<open>Some e\<close>); when
  it has returned, the countdown is decremented.
\<close>

definition block_task ::
  "(int \<Rightarrow> int \<Rightarrow> 'e option) \<Rightarrow> int \<Rightarrow> int \<Rightarrow> nat \<Rightarrow> ('e, 'v) task" where
  "block_task loop start finish a w =
     (let w1 = w\<lparr>calls := calls w @ [(start, finish)]\<rparr>
      in case loop start finish of
           Some e \<Rightarrow> (Some (Thrown e), w1)
         | None \<Rightarrow>
             (None, w1\<lparr>blocks_running := (blocks_running w1)(a := blocks_running w1 a - 1)\<rparr>))"

definition parallelize_loop ::
  "itype \<Rightarrow> int \<Rightarrow> int \<Rightarrow> (int \<Rightarrow> int \<Rightarrow> 'e option) \<Rightarrow> ui32 \<Rightarrow> ('e, 'v) action list
     \<Rightarrow> ('e, 'v) pool \<Rightarrow> ('e, 'v) blocking" where
  "parallelize_loop ty first_index index_after_last loop num_blocks sched s =
     (if wrap ty first_index = wrap ty index_after_last then Some (Inr (s, sched))
      else
        (case loop_plan ty first_index index_after_last num_blocks (thread_count s) of
           Inl f \<Rightarrow> Some (Inl f)
         | Inr p \<Rightarrow>
             (let a = fresh (world s);
                  w = (world s)\<lparr>blocks_running :=
                                  (blocks_running (world s))(a := snd (snd (snd p))),
                                fresh := a + 1\<rparr>;
                  s1 = fold (\<lambda>(start, finish). push_task (block_task loop start finish a))
                         (plan_blocks ty p) (s\<lparr>world := w\<rparr>)
              in cv_wait (\<lambda>s'. blocks_running (world s') a = 0) sched s1)))"

subsection \<open>Quantities used to state the properties\<close>

text \<open>The workers that hold a task, and the steps that enqueue.\<close>

definition is_executing :: "('e, 'v) thread \<Rightarrow> bool" where
  "is_executing th = (case th of Executing _ \<Rightarrow> True | _ \<Rightarrow> False)"

definition executing :: "('e, 'v) pool \<Rightarrow> nat" where
  "executing s = length (filter is_executing (threads s))"

text \<open>The tasks that the workers hold.\<close>

definition holding :: "('e, 'v) thread list \<Rightarrow> ('e, 'v) task list" where
  "holding ths = concat (map (\<lambda>th. case th of Executing t \<Rightarrow> [t] | _ \<Rightarrow> []) ths)"

definition is_enqueue :: "('e, 'v) action \<Rightarrow> bool" where
  "is_enqueue a =
     (case a of Push _ \<Rightarrow> True | Submit_void _ \<Rightarrow> True | Submit_value _ \<Rightarrow> True | _ \<Rightarrow> False)"

text \<open>No \<^verbatim>\<open>tasks_total++\<close> of the schedule wraps around to 0.\<close>

fun counter_fits :: "('e, 'v) action list \<Rightarrow> ('e, 'v) pool \<Rightarrow> bool" where
  "counter_fits [] s = True"
| "counter_fits (a # as) s =
     ((if is_enqueue a then tasks_total s + 1 \<noteq> 0 else True)
      \<and> (case step a s of Inl f \<Rightarrow> True | Inr s' \<Rightarrow> counter_fits as s'))"

text \<open>The writes of \<open>running\<close> and the notifications of the task-available condition in a
  trace, in order.\<close>

definition running_writes :: "event list \<Rightarrow> bool list" where
  "running_writes evs = concat (map (\<lambda>e. case e of Set_running b \<Rightarrow> [b] | _ \<Rightarrow> []) evs)"

definition task_available_signals :: "event list \<Rightarrow> wake list" where
  "task_available_signals evs =
     concat (map (\<lambda>e. case e of Notify Task_available k \<Rightarrow> [k] | _ \<Rightarrow> []) evs)"

text \<open>The notifications of the task-done condition in a trace, in order.\<close>

definition tasks_done_signals :: "event list \<Rightarrow> wake list" where
  "tasks_done_signals evs =
     concat (map (\<lambda>e. case e of Notify Tasks_done k \<Rightarrow> [k] | _ \<Rightarrow> []) evs)"

text \<open>The counter agrees with the queue and the workers that hold a task.\<close>

definition counter_ok :: "('e, 'v) pool \<Rightarrow> bool" where
  "counter_ok s = (unat (tasks_total s) = length (tasks s) + executing s)"





section \<open>Auxiliary facts\<close>

subsection \<open>Construction\<close>

lemma fold_update_length [simp]:
  "length (fold (\<lambda>i ths. ths[i := x]) js ths) = length ths"
  by (induction js arbitrary: ths) simp_all

lemma fold_update_upt:
  "n \<le> length ths \<Longrightarrow> fold (\<lambda>i ths. ths[i := x]) [0..<n] ths = replicate n x @ drop n ths"
proof (induction n)
  case 0
  then show ?case by simp
next
  case (Suc n)
  then have "n < length ths" by simp
  with Suc show ?case
    by (simp add: list_update_append replicate_append_same upd_conv_take_nth_drop
        Cons_nth_drop_Suc flip: replicate_Suc)
qed

lemma threads_thread_pool: "threads (thread_pool n) = replicate (unat n) Idle"
  by (simp add: thread_pool_def create_threads_def fold_update_upt)

lemma thread_pool_fields:
  "tasks (thread_pool n) = []" "tasks_total (thread_pool n) = 0"
  "thread_count (thread_pool n) = n" "running (thread_pool n)" "\<not> paused (thread_pool n)"
  "world (thread_pool n) = empty_world" "events (thread_pool n) = []"
  by (simp_all add: thread_pool_def create_threads_def)

subsection \<open>What each step leaves unchanged\<close>

lemma push_task_frame:
  "thread_count (push_task t s) = thread_count s" "running (push_task t s) = running s"
  "paused (push_task t s) = paused s" "threads (push_task t s) = threads s"
  "world (push_task t s) = world s"
  "tasks (push_task t s) = tasks s @ [t]" "tasks_total (push_task t s) = tasks_total s + 1"
  "events (push_task t s) = events s @ [Notify Task_available Notify_one]"
  by (simp_all add: push_task_def notify_def)

lemma submit_frame:
  "thread_count (snd (submit_void c s)) = thread_count s"
  "running (snd (submit_void c s)) = running s"
  "paused (snd (submit_void c s)) = paused s"
  "threads (snd (submit_void c s)) = threads s"
  "thread_count (snd (submit_value d s)) = thread_count s"
  "running (snd (submit_value d s)) = running s"
  "paused (snd (submit_value d s)) = paused s"
  "threads (snd (submit_value d s)) = threads s"
  by (simp_all add: submit_void_def submit_value_def Let_def push_task_frame)

lemma pause_resume_frame:
  "thread_count (pause s) = thread_count s" "running (pause s) = running s"
  "thread_count (resume s) = thread_count s" "running (resume s) = running s"
  "paused (pause s)" "\<not> paused (resume s)"
  "threads (pause s) = threads s" "threads (resume s) = threads s"
  "tasks (pause s) = tasks s" "tasks (resume s) = tasks s"
  "tasks_total (pause s) = tasks_total s" "tasks_total (resume s) = tasks_total s"
  by (simp_all add: pause_def resume_def notify_def)

lemma worker_frame:
  assumes "worker i s = Inr s'"
  shows "thread_count s' = thread_count s" and "running s' = running s"
    and "paused s' = paused s" and "length (threads s') = length (threads s)"
  using assms
  by (auto simp: worker_def notify_def split: if_splits thread.splits prod.splits option.splits)

lemma step_frame:
  assumes "step a s = Inr s'"
  shows "thread_count s' = thread_count s" and "running s' = running s"
    and "length (threads s') = length (threads s)"
  using assms
  by (cases a; auto simp: push_task_frame submit_frame pause_resume_frame dest: worker_frame)+

lemma exec_frame:
  "exec sched s = Inr s' \<Longrightarrow>
     thread_count s' = thread_count s \<and> running s' = running s
     \<and> length (threads s') = length (threads s)"
proof (induction sched arbitrary: s)
  case Nil
  then show ?case by simp
next
  case (Cons a sched)
  from Cons.prems obtain s1 where s1: "step a s = Inr s1" and rec: "exec sched s1 = Inr s'"
    by (auto split: sum.splits)
  from step_frame [OF s1] Cons.IH [OF rec] show ?case by simp
qed

text \<open>What a blocking wait returns is a state the other threads produced.\<close>

lemma cv_sleep_exec:
  "cv_sleep P sched s = Some (Inr (s', rest)) \<Longrightarrow>
     P s' \<and> (\<exists>pre. sched = pre @ rest \<and> exec pre s = Inr s')"
proof (induction sched arbitrary: s)
  case Nil
  then show ?case by simp
next
  case (Cons a sched)
  show ?case
  proof (cases "a = Wake")
    case True
    show ?thesis
    proof (cases "P s")
      case True
      with \<open>a = Wake\<close> Cons.prems have "s' = s" "rest = sched" by simp_all
      with True \<open>a = Wake\<close> have "a # sched = [Wake] @ rest \<and> exec [Wake] s = Inr s'" by simp
      with True \<open>s' = s\<close> show ?thesis by blast
    next
      case False
      with \<open>a = Wake\<close> Cons.prems have "cv_sleep P sched s = Some (Inr (s', rest))" by simp
      from Cons.IH [OF this] obtain pre where "P s'" "sched = pre @ rest" "exec pre s = Inr s'"
        by blast
      with \<open>a = Wake\<close> have "a # sched = (Wake # pre) @ rest \<and> exec (Wake # pre) s = Inr s'"
        by simp
      with \<open>P s'\<close> show ?thesis by blast
    qed
  next
    case False
    with Cons.prems obtain s1 where s1: "step a s = Inr s1"
      and rec: "cv_sleep P sched s1 = Some (Inr (s', rest))"
      by (cases a; auto split: sum.splits)
    from Cons.IH [OF rec] obtain pre where "P s'" "sched = pre @ rest" "exec pre s1 = Inr s'"
      by blast
    with s1 have "a # sched = (a # pre) @ rest \<and> exec (a # pre) s = Inr s'" by simp
    with \<open>P s'\<close> show ?thesis by blast
  qed
qed

lemma cv_wait_exec:
  "cv_wait P sched s = Some (Inr (s', rest)) \<Longrightarrow>
     P s' \<and> (\<exists>pre. sched = pre @ rest \<and> exec pre s = Inr s')"
  unfolding cv_wait_def
  by (auto split: if_splits dest: cv_sleep_exec)

lemma join_exec:
  "join i sched s = Some (Inr (s', rest)) \<Longrightarrow>
     has_exited i s' \<and> (\<exists>pre. sched = pre @ rest \<and> exec pre s = Inr s')"
proof (induction sched arbitrary: s)
  case Nil
  then show ?case by (auto split: if_splits)
next
  case (Cons a sched)
  show ?case
  proof (cases "has_exited i s")
    case True
    with Cons.prems have "s' = s" "rest = a # sched" by simp_all
    then have "a # sched = [] @ rest \<and> exec [] s = Inr s'" by simp
    with True \<open>s' = s\<close> show ?thesis by blast
  next
    case False
    with Cons.prems obtain s1 where s1: "step a s = Inr s1"
      and rec: "join i sched s1 = Some (Inr (s', rest))"
      by (auto split: sum.splits)
    from Cons.IH [OF rec] obtain pre where
      "has_exited i s'" "sched = pre @ rest" "exec pre s1 = Inr s'"
      by blast
    with s1 have "a # sched = (a # pre) @ rest \<and> exec (a # pre) s = Inr s'" by simp
    with \<open>has_exited i s'\<close> show ?thesis by blast
  qed
qed

lemma exec_append:
  "exec (xs @ ys) s = (case exec xs s of Inl f \<Rightarrow> Inl f | Inr s' \<Rightarrow> exec ys s')"
  by (induction xs arbitrary: s) (auto split: sum.splits)

lemma join_each_exec:
  "join_each js sched s = Some (Inr (s', rest)) \<Longrightarrow>
     \<exists>pre. sched = pre @ rest \<and> exec pre s = Inr s'"
proof (induction js arbitrary: sched s)
  case Nil
  then show ?case by simp
next
  case (Cons j js)
  from Cons.prems obtain s1 sched1 where j: "join j sched s = Some (Inr (s1, sched1))"
    and rec: "join_each js sched1 s1 = Some (Inr (s', rest))"
    by (auto simp: and_then_def split: option.splits sum.splits)
  from join_exec [OF j] obtain p1 where p1: "sched = p1 @ sched1" "exec p1 s = Inr s1" by blast
  from Cons.IH [OF rec] obtain p2 where p2: "sched1 = p2 @ rest" "exec p2 s1 = Inr s'" by blast
  from p1 p2 have "sched = (p1 @ p2) @ rest \<and> exec (p1 @ p2) s = Inr s'"
    by (simp add: exec_append)
  then show ?case by blast
qed

lemma fold_push_frame:
  "thread_count (fold (\<lambda>(a, b). push_task (g a b)) bs s) = thread_count s"
  "running (fold (\<lambda>(a, b). push_task (g a b)) bs s) = running s"
  "paused (fold (\<lambda>(a, b). push_task (g a b)) bs s) = paused s"
  "threads (fold (\<lambda>(a, b). push_task (g a b)) bs s) = threads s"
  by (induction bs arbitrary: s) (auto simp: push_task_frame)

lemma and_then_Inr:
  "and_then m k = Some (Inr r) \<Longrightarrow>
     \<exists>s1 sched1. m = Some (Inr (s1, sched1)) \<and> k sched1 s1 = Some (Inr r)"
  by (auto simp: and_then_def split: option.splits sum.splits)

lemma cv_wait_frame:
  assumes "cv_wait P sched s = Some (Inr (s', rest))"
  shows "thread_count s' = thread_count s" and "running s' = running s"
    and "length (threads s') = length (threads s)"
  using cv_wait_exec [OF assms] exec_frame by blast+

lemma wait_for_tasks_frame:
  assumes "wait_for_tasks sched s = Some (Inr (s', rest))"
  shows "thread_count s' = thread_count s" and "running s' = running s"
    and "length (threads s') = length (threads s)"
  using cv_wait_frame [OF assms [unfolded wait_for_tasks_def]] by simp_all

lemma join_each_frame:
  assumes "join_each js sched s = Some (Inr (s', rest))"
  shows "thread_count s' = thread_count s" and "running s' = running s"
    and "length (threads s') = length (threads s)"
  using join_each_exec [OF assms] exec_frame by blast+

lemma destroy_threads_frame:
  assumes "destroy_threads sched s = Some (Inr (s', rest))"
  shows "thread_count s' = thread_count s" and "running s' = running s"
  using join_each_frame [OF assms [unfolded destroy_threads_def]]
  by (simp_all add: notify_def)

lemma parallelize_loop_frame:
  assumes "parallelize_loop ty a b loop nb sched s = Some (Inr (s', rest))"
  shows "thread_count s' = thread_count s" and "running s' = running s"
proof -
  have "thread_count s' = thread_count s \<and> running s' = running s"
  proof (cases "wrap ty a = wrap ty b")
    case True
    with assms show ?thesis by (simp add: parallelize_loop_def)
  next
    case False
    with assms obtain p where
      "cv_wait (\<lambda>s'. blocks_running (world s') (fresh (world s)) = 0) sched
         (fold (\<lambda>(start, finish). push_task (block_task loop start finish (fresh (world s))))
            (plan_blocks ty p)
            (s\<lparr>world := (world s)\<lparr>blocks_running :=
                            (blocks_running (world s))(fresh (world s) := snd (snd (snd p))),
                          fresh := fresh (world s) + 1\<rparr>\<rparr>))
       = Some (Inr (s', rest))"
      by (simp add: parallelize_loop_def Let_def split: sum.splits)
    from cv_wait_frame(1,2) [OF this] show ?thesis
      by (simp add: fold_push_frame)
  qed
  then show "thread_count s' = thread_count s" and "running s' = running s" by simp_all
qed

lemma create_threads_frame:
  "thread_count (create_threads s) = thread_count s" "running (create_threads s) = running s"
  "paused (create_threads s) = paused s" "tasks (create_threads s) = tasks s"
  by (simp_all add: create_threads_def)

lemma reset_unfold:
  assumes "reset n sched s = Some (Inr (s', rest))"
  obtains s1 sched1 s2 where
    "wait_for_tasks sched (pause s) = Some (Inr (s1, sched1))"
    "destroy_threads sched1 (set_running False s1) = Some (Inr (s2, rest))"
    "s' = create_threads (set_running True
           (if \<not> paused s
            then resume (s2\<lparr>thread_count := n, threads := replicate (unat n) Not_started\<rparr>)
            else s2\<lparr>thread_count := n, threads := replicate (unat n) Not_started\<rparr>))"
proof -
  define k where "k = (\<lambda>sched2 s2.
     Some (Inr (create_threads (set_running True
           (if \<not> paused s
            then resume (s2\<lparr>thread_count := n, threads := replicate (unat n) Not_started\<rparr>)
            else s2\<lparr>thread_count := n, threads := replicate (unat n) Not_started\<rparr>)),
        sched2)) :: ('a, 'b) blocking)"
  have "reset n sched s =
    and_then (wait_for_tasks sched (pause s))
      (\<lambda>sched1 s1. and_then (destroy_threads sched1 (set_running False s1)) k)"
    by (simp add: reset_def Let_def k_def)
  with assms obtain s1 sched1 where
    1: "wait_for_tasks sched (pause s) = Some (Inr (s1, sched1))"
    and "and_then (destroy_threads sched1 (set_running False s1)) k = Some (Inr (s', rest))"
    by (auto dest: and_then_Inr)
  then obtain s2 sched2 where
    2: "destroy_threads sched1 (set_running False s1) = Some (Inr (s2, sched2))"
    and "k sched2 s2 = Some (Inr (s', rest))"
    by (auto dest: and_then_Inr)
  with 1 that show thesis by (auto simp: k_def)
qed

lemma reset_result:
  assumes "reset n sched s = Some (Inr (s', rest))"
  shows "thread_count s' = n" and "running s'"
  using assms
  by (auto elim!: reset_unfold simp: create_threads_frame set_running_def pause_resume_frame)

lemma dtor_result:
  assumes "thread_pool_dtor sched s = Some (Inr (s', rest))"
  shows "thread_count s' = thread_count s" and "\<not> running s'"
proof -
  from assms obtain s1 sched1 where w: "wait_for_tasks sched s = Some (Inr (s1, sched1))"
    and d: "destroy_threads sched1 (set_running False s1) = Some (Inr (s', rest))"
    unfolding thread_pool_dtor_def by (auto dest: and_then_Inr)
  from wait_for_tasks_frame [OF w] destroy_threads_frame [OF d]
  show "thread_count s' = thread_count s" and "\<not> running s'"
    by (simp_all add: set_running_def)
qed

subsection \<open>The trace of effects\<close>

lemma running_writes_append [simp]:
  "running_writes (xs @ ys) = running_writes xs @ running_writes ys"
  by (simp add: running_writes_def)

lemma running_writes_simps [simp]:
  "running_writes [] = []"
  "running_writes (Notify c k # evs) = running_writes evs"
  "running_writes (Set_paused b # evs) = running_writes evs"
  "running_writes (Set_running b # evs) = b # running_writes evs"
  by (simp_all add: running_writes_def)

lemma task_available_signals_append [simp]:
  "task_available_signals (xs @ ys) = task_available_signals xs @ task_available_signals ys"
  by (simp add: task_available_signals_def)

lemma task_available_signals_simps [simp]:
  "task_available_signals [] = []"
  "task_available_signals (Notify Task_available k # evs) = k # task_available_signals evs"
  "task_available_signals (Notify Tasks_done k # evs) = task_available_signals evs"
  "task_available_signals (Set_paused b # evs) = task_available_signals evs"
  "task_available_signals (Set_running b # evs) = task_available_signals evs"
  by (simp_all add: task_available_signals_def)

lemma worker_events:
  "worker i s = Inr s' \<Longrightarrow>
     events s' = events s \<or> events s' = events s @ [Notify Tasks_done Notify_one]"
  by (auto simp: worker_def notify_def split: if_splits thread.splits prod.splits option.splits)

lemma submit_events:
  "events (snd (submit_void c s)) = events s @ [Notify Task_available Notify_one]"
  "events (snd (submit_value d s)) = events s @ [Notify Task_available Notify_one]"
  by (simp_all add: submit_void_def submit_value_def Let_def push_task_frame)

lemma pause_resume_events:
  "events (pause s) = events s @ [Set_paused True]"
  "events (resume s) = events s @ [Set_paused False, Notify Task_available Notify_all]"
  by (simp_all add: pause_def resume_def notify_def)

lemma step_events:
  "step a s = Inr s' \<Longrightarrow>
     \<exists>evs. events s' = events s @ evs \<and> running_writes evs = []"
proof (cases a)
  case (Worker i)
  assume "step a s = Inr s'"
  with Worker have "worker i s = Inr s'" by simp
  from worker_events [OF this] show ?thesis by auto
qed (auto simp: push_task_frame submit_events pause_resume_events)

lemma exec_events:
  "exec sched s = Inr s' \<Longrightarrow>
     \<exists>evs. events s' = events s @ evs \<and> running_writes evs = []"
proof (induction sched arbitrary: s)
  case Nil
  then show ?case by simp
next
  case (Cons a sched)
  from Cons.prems obtain s1 where s1: "step a s = Inr s1" and rec: "exec sched s1 = Inr s'"
    by (auto split: sum.splits)
  from step_events [OF s1] obtain e1 where e1: "events s1 = events s @ e1" "running_writes e1 = []"
    by blast
  from Cons.IH [OF rec] obtain e2 where e2: "events s' = events s1 @ e2" "running_writes e2 = []"
    by blast
  from e1 e2 have "events s' = events s @ (e1 @ e2) \<and> running_writes (e1 @ e2) = []" by simp
  then show ?case by blast
qed

lemma cv_wait_events:
  assumes "cv_wait P sched s = Some (Inr (s', rest))"
  shows "\<exists>evs. events s' = events s @ evs \<and> running_writes evs = []"
  using cv_wait_exec [OF assms] exec_events by blast

lemma destroy_threads_events:
  assumes "destroy_threads sched s = Some (Inr (s', rest))"
  shows "\<exists>evs. events s' = events s @ Notify Task_available Notify_all # evs
           \<and> running_writes evs = []"
proof -
  from join_each_exec [OF assms [unfolded destroy_threads_def]] exec_events
  obtain evs where "events s' = events (notify Task_available Notify_all s) @ evs"
    "running_writes evs = []" by blast
  then show ?thesis by (simp add: notify_def)
qed

lemma dtor_running_writes:
  assumes "thread_pool_dtor sched s = Some (Inr (s', rest))"
  shows "running_writes (events s') = running_writes (events s) @ [False]"
proof -
  from assms obtain s1 sched1 where w: "wait_for_tasks sched s = Some (Inr (s1, sched1))"
    and d: "destroy_threads sched1 (set_running False s1) = Some (Inr (s', rest))"
    unfolding thread_pool_dtor_def by (auto dest: and_then_Inr)
  from cv_wait_events [OF w [unfolded wait_for_tasks_def]] obtain e1 where
    "events s1 = events s @ e1" "running_writes e1 = []" by blast
  moreover from destroy_threads_events [OF d] obtain e2 where
    "events s' = events (set_running False s1) @ Notify Task_available Notify_all # e2"
    "running_writes e2 = []" by blast
  ultimately show ?thesis by (simp add: set_running_def)
qed

lemma reset_running_writes:
  assumes "reset n sched s = Some (Inr (s', rest))"
  shows "running_writes (events s') = running_writes (events s) @ [False, True]"
proof -
  from assms obtain s1 sched1 s2 where
    w: "wait_for_tasks sched (pause s) = Some (Inr (s1, sched1))"
    and d: "destroy_threads sched1 (set_running False s1) = Some (Inr (s2, rest))"
    and s': "s' = create_threads (set_running True
           (if \<not> paused s
            then resume (s2\<lparr>thread_count := n, threads := replicate (unat n) Not_started\<rparr>)
            else s2\<lparr>thread_count := n, threads := replicate (unat n) Not_started\<rparr>))"
    by (rule reset_unfold)
  from cv_wait_events [OF w [unfolded wait_for_tasks_def]] obtain e1 where
    e1: "events s1 = events s @ Set_paused True # e1" "running_writes e1 = []"
    by (auto simp: pause_def)
  from destroy_threads_events [OF d] obtain e2 where
    e2: "events s2 = events (set_running False s1) @ Notify Task_available Notify_all # e2"
    "running_writes e2 = []" by blast
  have "events s' = events s2 @ (if \<not> paused s then [Set_paused False, Notify Task_available Notify_all] else [])
          @ [Set_running True]"
    by (simp add: s' create_threads_def set_running_def resume_def notify_def)
  with e1 e2 show ?thesis by (simp add: set_running_def)
qed

lemma fold_push_events:
  "running_writes (events (fold (\<lambda>(a, b). push_task (g a b)) bs s)) = running_writes (events s)"
  by (induction bs arbitrary: s) (auto simp: push_task_frame)

lemma parallelize_loop_running_writes:
  assumes "parallelize_loop ty a b loop nb sched s = Some (Inr (s', rest))"
  shows "running_writes (events s') = running_writes (events s)"
proof (cases "wrap ty a = wrap ty b")
  case True
  with assms show ?thesis by (simp add: parallelize_loop_def)
next
  case False
  with assms obtain p where
    "cv_wait (\<lambda>s'. blocks_running (world s') (fresh (world s)) = 0) sched
       (fold (\<lambda>(start, finish). push_task (block_task loop start finish (fresh (world s))))
          (plan_blocks ty p)
          (s\<lparr>world := (world s)\<lparr>blocks_running :=
                          (blocks_running (world s))(fresh (world s) := snd (snd (snd p))),
                        fresh := fresh (world s) + 1\<rparr>\<rparr>))
     = Some (Inr (s', rest))"
    by (simp add: parallelize_loop_def Let_def split: sum.splits)
  from cv_wait_events [OF this] show ?thesis
    by (auto simp: fold_push_events)
qed

subsection \<open>Unfolding for evaluation on concrete pools\<close>

lemmas eval_defs =
  thread_pool_def create_threads_def empty_world_def reset_def wait_for_tasks_def cv_wait_def
  tasks_done_pred_def get_tasks_running_unprotected_def get_tasks_queued_unprotected_def
  pause_def resume_def notify_def set_running_def destroy_threads_def and_then_def
  has_exited_def worker_def push_task_def Let_def get_thread_count_def thread_pool_dtor_def
  parallelize_loop_def loop_plan_def loop_range_def loop_split_def plan_blocks_def
  loop_block_def block_task_def plain_task_def submit_void_def submit_value_def
  submit_void_task_def submit_value_task_def submit_void_body_def submit_value_body_def
  catch_all_def set_value_def set_exception_def future_get_def upt_conv_Cons
  loop_blocks_def wrap_def promote_def int_type_def unsigned_type_def

subsection \<open>Normalised bounds\<close>

lemma loop_range_sym: "loop_range ty b a = loop_range ty a b"
  by (auto simp: loop_range_def Let_def)

lemma loop_plan_sym: "loop_plan ty b a nb tc = loop_plan ty a b nb tc"
  by (simp add: loop_plan_def loop_range_sym [of ty b a])

subsection \<open>Machine integers\<close>

lemma unat_of_nat_32: "n < 2 ^ 32 \<Longrightarrow> unat (of_nat n :: 32 word) = n"
  by (simp add: unat_of_nat)

lemma unat_of_nat_64: "n < 2 ^ 64 \<Longrightarrow> unat (of_nat n :: 64 word) = n"
  by (simp add: unat_of_nat)

lemma unat_lt_32: "unat (x :: 32 word) < 2 ^ 32"
  using unsigned_less [of x, where ?'a = nat] by simp

lemma ucast_of_nat_64_32: "(ucast (of_nat n :: 64 word) :: 32 word) = of_nat n"
  by (simp add: word_unat_eq_iff unsigned_ucast_eq unsigned_of_nat)

lemma unat_ucast_32_64: "unat (ucast (x :: 32 word) :: 64 word) = unat x"
proof -
  have "unat x < 2 ^ 64"
    using unat_lt_32 [of x] by (rule less_trans) simp
  then show ?thesis
    by (simp add: unsigned_ucast_eq take_bit_nat_eq_self)
qed



subsection \<open>A worker takes and runs a task\<close>

lemma take_and_run:
  assumes "i < length (threads s)" and "threads s ! i = Idle" and "running s"
    and "\<not> paused s" and "tasks s = []"
  shows "exec [Worker i, Worker i] (push_task t s) =
     (case t (world s) of
        (Some f, w) \<Rightarrow> Inl (Terminate f)
      | (None, w) \<Rightarrow>
          Inr (s\<lparr>world := w,
                 events := events s @ [Notify Task_available Notify_one,
                                       Notify Tasks_done Notify_one]\<rparr>))"
proof -
  let ?s1 = "push_task t s"
  let ?s2 = "?s1\<lparr>threads := (threads s)[i := Executing t], tasks := []\<rparr>"
  have 1: "worker i ?s1 = Inr ?s2"
    using assms by (simp add: worker_def push_task_frame)
  have 2: "worker i ?s2 =
     (case t (world s) of
        (Some f, w) \<Rightarrow> Inl (Terminate f)
      | (None, w) \<Rightarrow>
          Inr (s\<lparr>world := w,
                 events := events s @ [Notify Task_available Notify_one,
                                       Notify Tasks_done Notify_one]\<rparr>))"
    using assms
    by (auto simp: worker_def push_task_def notify_def list_update_same_conv
        split: prod.splits option.splits)
  from 1 2 show ?thesis
    by (auto split: prod.splits option.splits)
qed

lemma submit_bodies_return:
  "fst (submit_void_body c p) = None" "fst (submit_value_body d q) = None"
  by (auto simp: submit_void_body_def submit_value_body_def catch_all_def
      split: sum.splits)

subsection \<open>Waiting on a condition variable\<close>

lemma cv_sleep_until_wake:
  "Wake \<notin> set pre \<Longrightarrow> exec pre s = Inr s1 \<Longrightarrow>
     cv_sleep P (pre @ Wake # rest) s =
       (if P s1 then Some (Inr (s1, rest)) else cv_sleep P rest s1)"
proof (induction pre arbitrary: s)
  case Nil
  then show ?case by simp
next
  case (Cons a pre)
  from Cons.prems obtain s0 where s0: "step a s = Inr s0" and rec: "exec pre s0 = Inr s1"
    by (auto split: sum.splits)
  from Cons.prems have "a \<noteq> Wake" "Wake \<notin> set pre" by auto
  from Cons.IH [OF this(2) rec] s0 \<open>a \<noteq> Wake\<close> show ?case
    by (cases a) simp_all
qed

lemma exec_paused:
  "exec pre s = Inr s' \<Longrightarrow> Pause \<notin> set pre \<Longrightarrow> Resume \<notin> set pre \<Longrightarrow> paused s' = paused s"
proof (induction pre arbitrary: s)
  case Nil
  then show ?case by simp
next
  case (Cons a pre)
  from Cons.prems obtain s0 where s0: "step a s = Inr s0" and rec: "exec pre s0 = Inr s'"
    by (auto split: sum.splits)
  from Cons.prems have "a \<noteq> Pause" "a \<noteq> Resume" by auto
  with s0 have "paused s0 = paused s"
    by (cases a) (auto simp: push_task_frame submit_frame dest: worker_frame)
  with Cons.IH [OF rec] Cons.prems show ?case by simp
qed

subsection \<open>The counter and the queue\<close>

lemma filter_update_count:
  "i < length xs \<Longrightarrow>
     length (filter P (xs[i := y])) + (if P (xs ! i) then 1 else 0)
       = length (filter P xs) + (if P y then 1 else 0)"
proof (induction xs arbitrary: i)
  case Nil
  then show ?case by simp
next
  case (Cons x xs)
  then show ?case by (cases i) auto
qed

lemma executing_update:
  assumes "i < length (threads s)"
  shows "executing (s\<lparr>threads := (threads s)[i := y]\<rparr>)
           + (if is_executing (threads s ! i) then 1 else 0)
         = executing s + (if is_executing y then 1 else 0)"
  using filter_update_count [OF assms, of is_executing y] by (simp add: executing_def)

lemma executing_frame [simp]:
  "executing (s\<lparr>tasks := ts\<rparr>) = executing s"
  "executing (s\<lparr>tasks_total := n\<rparr>) = executing s"
  "executing (s\<lparr>world := w\<rparr>) = executing s"
  "executing (s\<lparr>events := evs\<rparr>) = executing s"
  "executing (s\<lparr>paused := b\<rparr>) = executing s"
  by (simp_all add: executing_def)

lemma worker_counter:
  assumes "worker i s = Inr s'" and "counter_ok s"
  shows "counter_ok s' \<and> length (tasks s') + executing s' = unat (tasks_total s')
         \<and> length (tasks s') + executing s' \<le> length (tasks s) + executing s"
proof (cases "i < length (threads s)")
  case False
  with assms show ?thesis by (simp add: worker_def counter_ok_def)
next
  case i: True
  show ?thesis
  proof (cases "threads s ! i")
    case Not_started
    with assms i show ?thesis by (simp add: worker_def counter_ok_def)
  next
    case Exited
    with assms i show ?thesis by (simp add: worker_def counter_ok_def)
  next
    case Idle
    show ?thesis
    proof (cases "running s \<and> tasks s \<noteq> [] \<and> \<not> paused s")
      case True
      with assms i Idle have s': "s' = s\<lparr>threads := (threads s)[i := Executing (hd (tasks s))],
                         tasks := tl (tasks s)\<rparr>"
        by (simp add: worker_def)
      from executing_update [OF i, of "Executing (hd (tasks s))"] Idle
      have "executing (s\<lparr>threads := (threads s)[i := Executing (hd (tasks s))]\<rparr>)
              = executing s + 1"
        by (simp add: is_executing_def)
      with True assms(2) show ?thesis
        by (cases "tasks s") (simp_all add: s' counter_ok_def)
    next
      case False
      from executing_update [OF i, of Exited] Idle
      have "executing (s\<lparr>threads := (threads s)[i := Exited]\<rparr>) = executing s"
        by (simp add: is_executing_def)
      with False assms i Idle show ?thesis
        by (auto simp: worker_def counter_ok_def split: if_splits)
    qed
  next
    case (Executing t)
    with assms i obtain w where w: "t (world s) = (None, w)"
      and s': "s' = notify Tasks_done Notify_one
                         (s\<lparr>world := w, tasks_total := tasks_total s - 1,
                            threads := (threads s)[i := Idle]\<rparr>)"
      by (auto simp: worker_def split: prod.splits option.splits)
    from executing_update [OF i, of Idle] Executing
    have e: "executing s = executing (s\<lparr>threads := (threads s)[i := Idle]\<rparr>) + 1"
      by (simp add: is_executing_def)
    with assms(2) have "0 < unat (tasks_total s)" by (simp add: counter_ok_def)
    then have "unat (tasks_total s - 1) = unat (tasks_total s) - 1"
      by (simp add: unat_minus_one unat_gt_0)
    moreover have "executing s' = executing (s\<lparr>threads := (threads s)[i := Idle]\<rparr>)"
      and "tasks s' = tasks s" and "tasks_total s' = tasks_total s - 1"
      by (simp_all add: s' notify_def executing_def)
    ultimately show ?thesis
      using e assms(2) by (simp add: counter_ok_def)
  qed
qed

lemma push_counter:
  assumes "counter_ok s" and "tasks_total s + 1 \<noteq> 0"
  shows "counter_ok (push_task t s)"
proof -
  from assms(2) have "1 + tasks_total s \<noteq> 0" by (simp add: add.commute)
  then have "unat (1 + tasks_total s) = Suc (unat (tasks_total s))"
    by (rule unatSuc)
  then have "unat (tasks_total s + 1) = unat (tasks_total s) + 1"
    by (simp add: add.commute)
  with assms(1) show ?thesis
    by (simp add: counter_ok_def push_task_def notify_def)
qed

lemma enqueue_counter:
  assumes "counter_ok s" and "tasks_total s + 1 \<noteq> 0"
  shows "counter_ok (snd (submit_void c s))" and "counter_ok (snd (submit_value d s))"
  using push_counter [of "s\<lparr>world := w\<rparr>" for w] assms
  by (simp_all add: submit_void_def submit_value_def Let_def counter_ok_def)

lemma step_counter:
  assumes "step a s = Inr s'" and "counter_ok s"
    and "is_enqueue a \<Longrightarrow> tasks_total s + 1 \<noteq> 0"
  shows "counter_ok s'"
proof (cases a)
  case (Worker i)
  with assms worker_counter [of i s s'] show ?thesis by simp
next
  case (Push t)
  with assms push_counter [of s t] show ?thesis
    by (simp add: is_enqueue_def)
next
  case (Submit_void c)
  with assms enqueue_counter(1) [of s c] show ?thesis
    by (auto simp: is_enqueue_def)
next
  case (Submit_value d)
  with assms enqueue_counter(2) [of s d] show ?thesis
    by (auto simp: is_enqueue_def)
next
  case Pause
  with assms show ?thesis by (auto simp: counter_ok_def pause_def executing_def)
next
  case Resume
  with assms show ?thesis by (auto simp: counter_ok_def resume_def notify_def executing_def)
next
  case Wake
  with assms show ?thesis by auto
qed

lemma exec_counter:
  "exec sched s = Inr s' \<Longrightarrow> counter_ok s \<Longrightarrow> counter_fits sched s \<Longrightarrow> counter_ok s'"
proof (induction sched arbitrary: s)
  case Nil
  then show ?case by simp
next
  case (Cons a sched)
  from Cons.prems(1) obtain s0 where s0: "step a s = Inr s0" and rec: "exec sched s0 = Inr s'"
    by (auto split: sum.splits)
  from Cons.prems(3) s0 have fits: "is_enqueue a \<Longrightarrow> tasks_total s + 1 \<noteq> 0"
    and rest: "counter_fits sched s0"
    by (simp_all split: if_splits)
  from step_counter [OF s0 Cons.prems(2) fits] have "counter_ok s0" .
  from Cons.IH [OF rec this rest] show ?case .
qed

lemma counter_ok_thread_pool: "counter_ok (thread_pool n)" "executing (thread_pool n) = 0"
  by (simp_all add: counter_ok_def executing_def thread_pool_fields threads_thread_pool
      is_executing_def)

lemma counts_of_counter_ok:
  assumes "counter_ok s"
  shows "unat (get_tasks_queued s) = length (tasks s)"
    and "unat (get_tasks_running s) = executing s"
    and "unat (get_tasks_total s) = length (tasks s) + executing s"
    and "get_tasks_queued s + ucast (get_tasks_running s) = ucast (get_tasks_total s)"
proof -
  have lt: "unat (tasks_total s) < 2 ^ 32" by (rule unat_lt_32)
  with assms have len: "length (tasks s) < 2 ^ 32" "length (tasks s) \<le> unat (tasks_total s)"
    by (simp_all add: counter_ok_def)
  have small: "n < 2 ^ 64" if "n < 2 ^ 32" for n :: nat
    using that by (rule less_trans) simp
  show q: "unat (get_tasks_queued s) = length (tasks s)"
    using unat_of_nat_64 [OF small [OF len(1)]]
    by (simp add: get_tasks_queued_def get_tasks_queued_unprotected_def)
  have "unat (of_nat (length (tasks s)) :: ui32) = length (tasks s)"
    using len(1) by (rule unat_of_nat_32)
  with len(2) have "unat (tasks_total s - of_nat (length (tasks s))) =
      unat (tasks_total s) - length (tasks s)"
    by (simp add: unat_sub word_le_nat_alt)
  with assms show r: "unat (get_tasks_running s) = executing s"
    by (simp add: get_tasks_running_def get_tasks_running_unprotected_def
        get_tasks_queued_unprotected_def ucast_of_nat_64_32 counter_ok_def)
  from assms show t: "unat (get_tasks_total s) = length (tasks s) + executing s"
    by (simp add: get_tasks_total_def get_tasks_total_unprotected_def counter_ok_def)
  have "unat (get_tasks_queued s + ucast (get_tasks_running s))
          = unat (ucast (get_tasks_total s) :: ui64)"
  proof -
    have "length (tasks s) + executing s < 2 ^ 64"
      using lt assms by (simp add: counter_ok_def small)
    then have "unat (get_tasks_queued s) + unat (ucast (get_tasks_running s) :: ui64) < 2 ^ 64"
      using q r by (simp add: unat_ucast_32_64)
    then have "unat (get_tasks_queued s + ucast (get_tasks_running s))
        = unat (get_tasks_queued s) + unat (ucast (get_tasks_running s) :: ui64)"
      using unat_add_lem [of "get_tasks_queued s" "ucast (get_tasks_running s)"] by simp
    with q r t show ?thesis by (simp add: unat_ucast_32_64)
  qed
  then show "get_tasks_queued s + ucast (get_tasks_running s) = ucast (get_tasks_total s)"
    by (simp add: word_unat_eq_iff)
qed

subsection \<open>Blocks of equal size\<close>








subsection \<open>The blocks \<^verbatim>\<open>parallelize_loop\<close> computes\<close>


subsection \<open>Conversions between integer types\<close>












subsection \<open>The blocks are blocks of equal size\<close>



subsection \<open>The calls of the loop body\<close>

lemma holding_simps [simp]:
  "holding [] = []"
  "holding (Executing t # ths) = t # holding ths"
  "holding (Idle # ths) = holding ths"
  "holding (Exited # ths) = holding ths"
  "holding (Not_started # ths) = holding ths"
  by (simp_all add: holding_def)












subsection \<open>A caller that is not woken\<close>

lemma exec_replicate_idle:
  "worker i s = Inr s \<Longrightarrow> exec (replicate k (Worker i)) s = Inr s"
  by (induction k) simp_all

lemma cv_sleep_replicate_idle:
  "worker i s = Inr s \<Longrightarrow> cv_sleep P (replicate k (Worker i)) s = None"
  by (induction k) simp_all

lemma tasks_done_signals_pause:
  "tasks_done_signals (events (pause s)) = tasks_done_signals (events s)"
  by (simp add: tasks_done_signals_def pause_def)

section \<open>The thread count\<close>

text \<open>
  Claim C1. Constructing a pool with thread count 0, and \<^verbatim>\<open>reset(0)\<close>, should replace the 0
  by the hardware concurrency, so that the thread count is never 0. The constructor and
  \<^verbatim>\<open>reset\<close> store their argument as it is: a pool constructed with 0 has thread count 0
  and no worker, and \<^verbatim>\<open>reset(0)\<close> on a pool of one thread returns a pool with thread
  count 0 and no worker. On such a pool \<^verbatim>\<open>parallelize_loop\<close> with the default number of
  blocks divides by the thread count 0.
\<close>

theorem zero_thread_count_is_kept:
  "get_thread_count (thread_pool 0 :: (unit, unit) pool) = 0
   \<and> threads (thread_pool 0 :: (unit, unit) pool) = []
   \<and> reset 0 [Worker 0] (thread_pool 1 :: (unit, unit) pool) =
       Some (Inr (\<lparr>tasks = [], tasks_total = 0, thread_count = 0, threads = [],
                   running = True, paused = False, world = empty_world,
                   events = [Set_paused True, Set_running False,
                             Notify Task_available Notify_all, Set_paused False,
                             Notify Task_available Notify_all, Set_running True]\<rparr>, []))
   \<and> parallelize_loop int_type 0 4 (\<lambda>_ _. None) 0 [] (thread_pool 0 :: (unit, unit) pool)
       = Some (Inl Division_by_zero)"
  by (simp add: eval_defs)

text \<open>
  Claim C10. The value returned by \<^verbatim>\<open>get_thread_count\<close> is changed by \<^verbatim>\<open>reset\<close> only:
  \<^verbatim>\<open>push_task\<close>, both shapes of \<^verbatim>\<open>submit\<close>, \<^verbatim>\<open>pause\<close>, \<^verbatim>\<open>resume\<close>, \<^verbatim>\<open>wait_for_tasks\<close> and
  \<^verbatim>\<open>parallelize_loop\<close> (whatever the other threads do while the last two block) leave it
  as it was, and when \<^verbatim>\<open>reset(n)\<close> returns it is \<open>n\<close>. The count getters are functions of
  the state and return no new state.
\<close>

theorem thread_count_changed_only_by_reset:
  "get_thread_count (push_task t s) = get_thread_count s
   \<and> get_thread_count (snd (submit_void c s)) = get_thread_count s
   \<and> get_thread_count (snd (submit_value d s)) = get_thread_count s
   \<and> get_thread_count (pause s) = get_thread_count s
   \<and> get_thread_count (resume s) = get_thread_count s
   \<and> (wait_for_tasks sched1 s = Some (Inr (s1, rest1))
        \<longrightarrow> get_thread_count s1 = get_thread_count s)
   \<and> (parallelize_loop ty a b loop nb sched2 s = Some (Inr (s2, rest2))
        \<longrightarrow> get_thread_count s2 = get_thread_count s)
   \<and> (reset n sched3 s = Some (Inr (s3, rest3)) \<longrightarrow> get_thread_count s3 = n)"
  by (simp add: get_thread_count_def push_task_frame submit_frame pause_resume_frame
      wait_for_tasks_frame parallelize_loop_frame reset_result)

theorem thread_count_changed_only_by_reset_witness:
  "wait_for_tasks [] (thread_pool 2 :: (unit, unit) pool) = Some (Inr (thread_pool 2, []))
   \<and> (\<exists>s2. parallelize_loop int_type 0 4 (\<lambda>_ _. None) 2
              [Worker 0, Worker 0, Worker 1, Worker 1, Wake] (thread_pool 2 :: (unit, unit) pool)
            = Some (Inr (s2, [])) \<and> get_thread_count s2 = 2)
   \<and> (\<exists>s3. reset 3 [Worker 0, Worker 1] (thread_pool 2 :: (unit, unit) pool)
            = Some (Inr (s3, [])) \<and> get_thread_count s3 = 3)"
proof -
  let ?p = "thread_pool 2 :: (unit, unit) pool"
  have h1: "wait_for_tasks [] ?p = Some (Inr (?p, []))"
    by (simp add: eval_defs)
  obtain s2 where h2: "parallelize_loop int_type 0 4 (\<lambda>_ _. None) 2
      [Worker 0, Worker 0, Worker 1, Worker 1, Wake] ?p = Some (Inr (s2, []))"
    by (simp add: eval_defs)
  obtain s3 where h3: "reset 3 [Worker 0, Worker 1] ?p = Some (Inr (s3, []))"
    by (simp add: eval_defs)
  from h1 h2 h3
    thread_count_changed_only_by_reset [where s = ?p and ?sched1.0 = "[]" and ?s1.0 = ?p
      and ?rest1.0 = "[]" and ty = int_type and a = 0 and b = 4 and loop = "\<lambda>_ _. None"
      and nb = 2
      and ?sched2.0 = "[Worker 0, Worker 0, Worker 1, Worker 1, Wake]" and ?s2.0 = s2
      and ?rest2.0 = "[]" and n = 3 and ?sched3.0 = "[Worker 0, Worker 1]" and ?s3.0 = s3
      and ?rest3.0 = "[]"]
  show ?thesis by (simp add: get_thread_count_def thread_pool_fields)
qed

section \<open>The \<open>running\<close> flag\<close>

text \<open>
  Claim C6 says that \<open>running\<close> is never set back to true once it was false. On a pool of
  one thread whose worker leaves when told to, \<^verbatim>\<open>reset(1)\<close> writes false and then true, and
  returns a running pool.
\<close>

theorem reset_sets_running_again_counterexample:
  "reset 1 [Worker 0] (thread_pool 1 :: (unit, unit) pool) =
     Some (Inr (\<lparr>tasks = [], tasks_total = 0, thread_count = 1, threads = [Idle],
                 running = True, paused = False, world = empty_world,
                 events = [Set_paused True, Set_running False,
                           Notify Task_available Notify_all, Set_paused False,
                           Notify Task_available Notify_all, Set_running True]\<rparr>, []))"
  by (simp add: eval_defs)

text \<open>
  Claim C6 as amended. \<open>running\<close> is true after construction. The destructor writes it
  once, to false, and it is false when the destructor returns. \<^verbatim>\<open>reset\<close> writes it twice,
  false before it joins the old workers and true before it creates the new ones, and it is
  true when \<^verbatim>\<open>reset\<close> returns. No step of a worker and no call of \<^verbatim>\<open>push_task\<close>, \<^verbatim>\<open>submit\<close>,
  \<^verbatim>\<open>pause\<close>, \<^verbatim>\<open>resume\<close>, \<^verbatim>\<open>wait_for_tasks\<close> or \<^verbatim>\<open>parallelize_loop\<close> changes it.
\<close>

theorem running_lifecycle:
  "running (thread_pool n :: ('e, 'v) pool)
   \<and> (thread_pool_dtor sched1 (s :: ('e, 'v) pool) = Some (Inr (s1, rest1)) \<longrightarrow>
        \<not> running s1 \<and> running_writes (events s1) = running_writes (events s) @ [False])
   \<and> (reset m sched2 s = Some (Inr (s2, rest2)) \<longrightarrow>
        running s2 \<and> running_writes (events s2) = running_writes (events s) @ [False, True])
   \<and> (step a s = Inr s3 \<longrightarrow>
        running s3 = running s \<and> running_writes (events s3) = running_writes (events s))
   \<and> (wait_for_tasks sched4 s = Some (Inr (s4, rest4)) \<longrightarrow>
        running s4 = running s \<and> running_writes (events s4) = running_writes (events s))
   \<and> (parallelize_loop ty a' b' loop nb sched5 s = Some (Inr (s5, rest5)) \<longrightarrow>
        running s5 = running s \<and> running_writes (events s5) = running_writes (events s))"
proof -
  have "step a s = Inr s3 \<Longrightarrow> running_writes (events s3) = running_writes (events s)"
    using step_events [of a s s3] by auto
  moreover have "wait_for_tasks sched4 s = Some (Inr (s4, rest4)) \<Longrightarrow>
      running_writes (events s4) = running_writes (events s)"
    using cv_wait_events [of tasks_done_pred sched4 s s4 rest4]
    by (auto simp: wait_for_tasks_def)
  ultimately show ?thesis
    by (simp add: thread_pool_fields dtor_result dtor_running_writes reset_result
        reset_running_writes step_frame wait_for_tasks_frame parallelize_loop_frame
        parallelize_loop_running_writes)
qed

theorem running_lifecycle_witness:
  "(\<exists>s1. thread_pool_dtor [Worker 0] (thread_pool 1 :: (unit, unit) pool) = Some (Inr (s1, []))
          \<and> \<not> running s1 \<and> running_writes (events s1) = [False])
   \<and> (\<exists>s2. reset 1 [Worker 0] (thread_pool 1 :: (unit, unit) pool) = Some (Inr (s2, []))
          \<and> running s2 \<and> running_writes (events s2) = [False, True])
   \<and> (\<exists>s3. step Pause (thread_pool 1 :: (unit, unit) pool) = Inr s3 \<and> running s3)
   \<and> (\<exists>s4. wait_for_tasks [] (thread_pool 1 :: (unit, unit) pool) = Some (Inr (s4, []))
          \<and> running s4)
   \<and> (\<exists>s5. parallelize_loop int_type 0 2 (\<lambda>_ _. None) 1 [Worker 0, Worker 0, Wake]
              (thread_pool 1 :: (unit, unit) pool) = Some (Inr (s5, []))
          \<and> running s5 \<and> running_writes (events s5) = [])"
proof -
  let ?p = "thread_pool 1 :: (unit, unit) pool"
  obtain s1 where h1: "thread_pool_dtor [Worker 0] ?p = Some (Inr (s1, []))"
    by (simp add: eval_defs)
  obtain s2 where h2: "reset 1 [Worker 0] ?p = Some (Inr (s2, []))"
    by (simp add: eval_defs)
  obtain s3 where h3: "step Pause ?p = Inr s3"
    by simp
  obtain s4 where h4: "wait_for_tasks [] ?p = Some (Inr (s4, []))"
    by (simp add: eval_defs)
  obtain s5 where h5: "parallelize_loop int_type 0 2 (\<lambda>_ _. None) 1
      [Worker 0, Worker 0, Wake] ?p
      = Some (Inr (s5, []))"
    by (simp add: eval_defs)
  have e: "events ?p = []" "running ?p"
    by (simp_all add: thread_pool_fields)
  from h1 h2 h3 h4 h5 e
    running_lifecycle [where n = 1 and s = ?p and ?sched1.0 = "[Worker 0]" and ?s1.0 = s1
      and ?rest1.0 = "[]" and m = 1 and ?sched2.0 = "[Worker 0]" and ?s2.0 = s2
      and ?rest2.0 = "[]" and a = Pause and ?s3.0 = s3 and ?sched4.0 = "[]" and ?s4.0 = s4
      and ?rest4.0 = "[]" and ty = int_type and a' = 0 and b' = 2 and loop = "\<lambda>_ _. None"
      and nb = 1
      and ?sched5.0 = "[Worker 0, Worker 0, Wake]" and ?s5.0 = s5 and ?rest5.0 = "[]"]
  show ?thesis by simp
qed

section \<open>Signals of the task-available condition\<close>

text \<open>
  Claim C9 says that every signal of the task-available condition is a broadcast. The
  signal sent by \<^verbatim>\<open>push_task\<close> is \<^verbatim>\<open>notify_one\<close>.
\<close>

theorem enqueue_signal_counterexample:
  "task_available_signals
     (events (push_task (plain_task (Inr ())) (thread_pool 2 :: (unit, unit) pool)))
   = [Notify_one]"
  by (simp add: eval_defs)

text \<open>
  Claim C9 as amended. The task-available condition is signalled on each enqueue, on
  \<^verbatim>\<open>resume\<close> and when the workers are shut down. The signal of \<^verbatim>\<open>resume\<close> and the signal
  \<^verbatim>\<open>destroy_threads\<close> sends before it joins the workers are broadcasts (\<^verbatim>\<open>notify_all\<close>); the
  signal of an enqueue, by \<^verbatim>\<open>push_task\<close> or \<^verbatim>\<open>submit\<close>, wakes one waiting worker
  (\<^verbatim>\<open>notify_one\<close>).
\<close>

theorem task_available_signals_sent:
  "task_available_signals (events (push_task t s))
     = task_available_signals (events s) @ [Notify_one]
   \<and> task_available_signals (events (snd (submit_void c s)))
     = task_available_signals (events s) @ [Notify_one]
   \<and> task_available_signals (events (snd (submit_value d s)))
     = task_available_signals (events s) @ [Notify_one]
   \<and> task_available_signals (events (resume s))
     = task_available_signals (events s) @ [Notify_all]
   \<and> (destroy_threads sched s = Some (Inr (s', rest)) \<longrightarrow>
        (\<exists>evs. events s' = events s @ Notify Task_available Notify_all # evs))"
  using destroy_threads_events [of sched s s' rest]
  by (auto simp: push_task_frame submit_events pause_resume_events)

theorem task_available_signals_sent_witness:
  "destroy_threads [Worker 0] (set_running False (thread_pool 1 :: (unit, unit) pool))
     = Some (Inr (\<lparr>tasks = [], tasks_total = 0, thread_count = 1, threads = [Exited],
                   running = False, paused = False, world = empty_world,
                   events = [Set_running False, Notify Task_available Notify_all]\<rparr>, []))
   \<and> (\<exists>evs. [Set_running False, Notify Task_available Notify_all]
          = [Set_running False] @ Notify Task_available Notify_all # evs)"
proof -
  let ?s = "set_running False (thread_pool 1 :: (unit, unit) pool)"
  let ?s' = "\<lparr>tasks = [], tasks_total = 0, thread_count = 1, threads = [Exited],
                   running = False, paused = False, world = empty_world,
                   events = [Set_running False, Notify Task_available Notify_all]\<rparr>
             :: (unit, unit) pool"
  have h: "destroy_threads [Worker 0] ?s = Some (Inr (?s', []))"
    by (simp add: eval_defs)
  have e: "events ?s = [Set_running False]"
    by (simp add: eval_defs)
  from h task_available_signals_sent [where sched = "[Worker 0]" and s = ?s and s' = ?s'
      and rest = "[]"] e
  show ?thesis by simp
qed

section \<open>Degenerate ranges of \<^verbatim>\<open>parallelize_loop\<close>\<close>

text \<open>
  Claim C8. With an empty range \<^verbatim>\<open>parallelize_loop\<close> returns at once, in the state it was
  called in, and hands no block to \<^verbatim>\<open>loop\<close>. With reversed bounds it does exactly what it
  does with the bounds in ascending order. Neither is an error: as long as the number of
  blocks or the thread count is not 0, the blocks are computed.
\<close>

theorem parallelize_degenerate_ranges:
  "parallelize_loop ty a a loop nb sched (s :: ('e, 'v) pool) = Some (Inr (s, sched))
   \<and> (loop_blocks ty a a nb tc :: 'e fault + (int \<times> int) list) = Inr []
   \<and> parallelize_loop ty b a loop nb sched s = parallelize_loop ty a b loop nb sched s
   \<and> (loop_blocks ty b a nb tc :: 'e fault + (int \<times> int) list) = loop_blocks ty a b nb tc
   \<and> (nb \<noteq> 0 \<or> tc \<noteq> 0 \<longrightarrow>
        (\<exists>bs. (loop_blocks ty b a nb tc :: 'e fault + (int \<times> int) list) = Inr bs))"
proof -
  have "parallelize_loop ty b a loop nb sched s = parallelize_loop ty a b loop nb sched s"
    by (cases "wrap ty a = wrap ty b") (auto simp: parallelize_loop_def loop_plan_sym)
  moreover have "(loop_blocks ty b a nb tc :: 'e fault + (int \<times> int) list)
      = loop_blocks ty a b nb tc"
    by (cases "wrap ty a = wrap ty b") (auto simp: loop_blocks_def loop_plan_sym)
  moreover have "nb \<noteq> 0 \<or> tc \<noteq> 0 \<Longrightarrow>
      \<exists>bs. (loop_blocks ty b a nb tc :: 'e fault + (int \<times> int) list) = Inr bs"
    by (auto simp: loop_blocks_def loop_plan_def Let_def split: prod.splits)
  ultimately show ?thesis
    by (simp add: parallelize_loop_def loop_blocks_def)
qed

theorem parallelize_degenerate_ranges_witness:
  "(2 :: ui32) \<noteq> 0
   \<and> (loop_blocks int_type 5 5 0 0 :: unit fault + (int \<times> int) list) = Inr []
   \<and> (loop_blocks int_type 7 3 2 0 :: unit fault + (int \<times> int) list) = Inr [(3, 5), (5, 7)]
   \<and> (loop_blocks int_type 3 7 2 0 :: unit fault + (int \<times> int) list) = Inr [(3, 5), (5, 7)]"
proof -
  have "(loop_blocks int_type 3 7 2 0 :: unit fault + (int \<times> int) list)
      = Inr [(3, 5), (5, 7)]"
    by (simp add: eval_defs)
  with parallelize_degenerate_ranges [where ty = int_type and a = 3 and b = 7 and nb = 2
      and tc = 0 and loop = "\<lambda>_ _. None" and sched = "[]"
      and s = "thread_pool 1 :: (unit, unit) pool"]
    parallelize_degenerate_ranges [where ty = int_type and a = 5 and b = 5 and nb = 0
      and tc = 0 and loop = "\<lambda>_ _. None" and sched = "[]"
      and s = "thread_pool 1 :: (unit, unit) pool"]
  show ?thesis by simp
qed

section \<open>Failures of task bodies\<close>

text \<open>
  Claim C2 says that a failure raised by a callable enqueued with \<^verbatim>\<open>push_task\<close> is caught
  at the task boundary, that the worker goes on and that the counter is decremented. On a
  pool of one thread, a task that raises is pushed, taken and called: the exception leaves
  \<^verbatim>\<open>worker()\<close> and the process is terminated.
\<close>

theorem push_task_failure_counterexample:
  "exec [Push (plain_task (Inl ())), Worker 0, Worker 0] (thread_pool 1 :: (unit, unit) pool)
     = Inl (Terminate (Thrown ()))"
  by (simp add: eval_defs)

text \<open>
  Claim C2 as amended. With a worker waiting at an empty queue of a running, unpaused pool,
  a callable enqueued with \<^verbatim>\<open>push_task\<close> that returns is counted once on enqueue and once
  on completion: afterwards the counter, the queue and the workers are as before, and the
  task-available and the tasks-done condition were each notified once. A callable that
  raises is not caught: the exception leaves \<^verbatim>\<open>worker()\<close>, which ends the worker with
  \<^verbatim>\<open>std::terminate\<close>, and the counter is not decremented for it.
\<close>

theorem push_task_body_outcomes:
  assumes "i < length (threads s)" and "threads s ! i = Idle" and "running s"
    and "\<not> paused s" and "tasks s = []"
  shows "exec [Push (plain_task (Inr ())), Worker i, Worker i] s =
           Inr (s\<lparr>events := events s @ [Notify Task_available Notify_one,
                                         Notify Tasks_done Notify_one]\<rparr>)
         \<and> exec [Push (plain_task (Inl e)), Worker i, Worker i] s = Inl (Terminate (Thrown e))"
  using take_and_run [OF assms, of "plain_task (Inr ())"]
    take_and_run [OF assms, of "plain_task (Inl e)"]
  by (simp add: plain_task_def)

theorem push_task_body_outcomes_witness:
  "0 < length (threads (thread_pool 1 :: (unit, unit) pool))
   \<and> threads (thread_pool 1 :: (unit, unit) pool) ! 0 = Idle
   \<and> running (thread_pool 1 :: (unit, unit) pool)
   \<and> \<not> paused (thread_pool 1 :: (unit, unit) pool)
   \<and> tasks (thread_pool 1 :: (unit, unit) pool) = []
   \<and> exec [Push (plain_task (Inr ())), Worker 0, Worker 0] (thread_pool 1 :: (unit, unit) pool)
       = Inr \<lparr>tasks = [], tasks_total = 0, thread_count = 1, threads = [Idle],
              running = True, paused = False, world = empty_world,
              events = [Notify Task_available Notify_one, Notify Tasks_done Notify_one]\<rparr>
   \<and> exec [Push (plain_task (Inl ())), Worker 0, Worker 0] (thread_pool 1 :: (unit, unit) pool)
       = Inl (Terminate (Thrown ()))"
proof -
  let ?p = "thread_pool 1 :: (unit, unit) pool"
  have h: "0 < length (threads ?p)" "threads ?p ! 0 = Idle" "running ?p" "\<not> paused ?p"
    "tasks ?p = []"
    by (simp_all add: thread_pool_fields threads_thread_pool)
  have p: "?p = \<lparr>tasks = [], tasks_total = 0, thread_count = 1, threads = [Idle],
              running = True, paused = False, world = empty_world, events = []\<rparr>"
    by (simp add: eval_defs)
  from push_task_body_outcomes [OF h, of "()"] h show ?thesis
    by (simp add: p)
qed

text \<open>
  Claim C3. With a worker waiting at an empty queue of a running, unpaused pool, a callable
  that raises \<open>e\<close>, submitted in either shape, is run by the worker without the failure
  leaving the task: the worker is back at the head of its loop, the counter is back at its
  value, and \<^verbatim>\<open>get\<close> on the returned future raises that same \<open>e\<close>. Whatever the callable
  does and whatever the state of the promise, no failure leaves the body of either lambda.
\<close>

theorem submit_failure_reaches_future:
  assumes "i < length (threads s)" and "threads s ! i = Idle" and "running s"
    and "\<not> paused s" and "tasks s = []"
  shows "(\<exists>s'. exec [Worker i, Worker i] (snd (submit_void (Inl e) s)) = Inr s'
            \<and> future_get (bool_promises (world s') (fst (submit_void (Inl e) s)))
                = Some (Inl (Thrown e))
            \<and> threads s' = threads s \<and> tasks_total s' = tasks_total s \<and> tasks s' = [])
         \<and> (\<exists>s'. exec [Worker i, Worker i] (snd (submit_value (Inl e) s)) = Inr s'
            \<and> future_get (value_promises (world s') (fst (submit_value (Inl e) s)))
                = Some (Inl (Thrown e))
            \<and> threads s' = threads s \<and> tasks_total s' = tasks_total s \<and> tasks s' = [])
         \<and> fst (submit_void_body c p) = None \<and> fst (submit_value_body d q) = None"
proof -
  let ?w1 = "(world s)\<lparr>bool_promises := (bool_promises (world s))(fresh (world s) := Not_ready),
                        fresh := fresh (world s) + 1\<rparr>"
  let ?w2 = "(world s)\<lparr>value_promises := (value_promises (world s))(fresh (world s) := Not_ready),
                        fresh := fresh (world s) + 1\<rparr>"
  have a1: "i < length (threads (s\<lparr>world := ?w1\<rparr>))" "threads (s\<lparr>world := ?w1\<rparr>) ! i = Idle"
    "running (s\<lparr>world := ?w1\<rparr>)" "\<not> paused (s\<lparr>world := ?w1\<rparr>)" "tasks (s\<lparr>world := ?w1\<rparr>) = []"
    using assms by simp_all
  have a2: "i < length (threads (s\<lparr>world := ?w2\<rparr>))" "threads (s\<lparr>world := ?w2\<rparr>) ! i = Idle"
    "running (s\<lparr>world := ?w2\<rparr>)" "\<not> paused (s\<lparr>world := ?w2\<rparr>)" "tasks (s\<lparr>world := ?w2\<rparr>) = []"
    using assms by simp_all
  have "\<exists>s'. exec [Worker i, Worker i] (snd (submit_void (Inl e) s)) = Inr s'
            \<and> future_get (bool_promises (world s') (fst (submit_void (Inl e) s)))
                = Some (Inl (Thrown e))
            \<and> threads s' = threads s \<and> tasks_total s' = tasks_total s \<and> tasks s' = []"
    using take_and_run [OF a1, of "submit_void_task (Inl e) (fresh (world s))"] assms(5)
    by (simp add: submit_void_def Let_def submit_void_task_def submit_void_body_def
        catch_all_def set_exception_def future_get_def)
  moreover have "\<exists>s'. exec [Worker i, Worker i] (snd (submit_value (Inl e) s)) = Inr s'
            \<and> future_get (value_promises (world s') (fst (submit_value (Inl e) s)))
                = Some (Inl (Thrown e))
            \<and> threads s' = threads s \<and> tasks_total s' = tasks_total s \<and> tasks s' = []"
    using take_and_run [OF a2, of "submit_value_task (Inl e) (fresh (world s))"] assms(5)
    by (simp add: submit_value_def Let_def submit_value_task_def submit_value_body_def
        catch_all_def set_exception_def future_get_def)
  ultimately show ?thesis
    by (simp add: submit_bodies_return)
qed

theorem submit_failure_reaches_future_witness:
  "0 < length (threads (thread_pool 1 :: (unit, unit) pool))
   \<and> threads (thread_pool 1 :: (unit, unit) pool) ! 0 = Idle
   \<and> running (thread_pool 1 :: (unit, unit) pool)
   \<and> \<not> paused (thread_pool 1 :: (unit, unit) pool)
   \<and> tasks (thread_pool 1 :: (unit, unit) pool) = []
   \<and> (\<exists>s'. exec [Worker 0, Worker 0]
               (snd (submit_void (Inl ()) (thread_pool 1 :: (unit, unit) pool))) = Inr s'
          \<and> future_get (bool_promises (world s') 0) = Some (Inl (Thrown ())))
   \<and> (\<exists>s'. exec [Worker 0, Worker 0]
               (snd (submit_value (Inl ()) (thread_pool 1 :: (unit, unit) pool))) = Inr s'
          \<and> future_get (value_promises (world s') 0) = Some (Inl (Thrown ())))"
proof -
  let ?p = "thread_pool 1 :: (unit, unit) pool"
  have h: "0 < length (threads ?p)" "threads ?p ! 0 = Idle" "running ?p" "\<not> paused ?p"
    "tasks ?p = []"
    by (simp_all add: thread_pool_fields threads_thread_pool)
  have f: "fst (submit_void (Inl ()) ?p) = 0" "fst (submit_value (Inl ()) ?p) = 0"
    by (simp_all add: submit_void_def submit_value_def Let_def thread_pool_fields
        empty_world_def)
  from submit_failure_reaches_future [OF h, of "()" "Inl ()" Not_ready "Inl ()" Not_ready] h f
  show ?thesis by auto
qed

section \<open>The counts\<close>

text \<open>
  Claim C7. In every state reached from a new pool by enqueueing, pausing, resuming and steps
  of the workers, as long as no increment of the counter wrapped around, the queued count
  plus the running count is the total count, as the C++ expression on \<^verbatim>\<open>ui64\<close> and as
  numbers; the queued count is the length of the queue and the running count is the number
  of workers that hold a task, so no count has wrapped below 0.
\<close>

theorem counts_identity:
  assumes "exec sched (thread_pool n) = Inr s" and "counter_fits sched (thread_pool n)"
  shows "get_tasks_queued s + ucast (get_tasks_running s) = ucast (get_tasks_total s)
         \<and> unat (get_tasks_queued s) + unat (get_tasks_running s) = unat (get_tasks_total s)
         \<and> unat (get_tasks_queued s) = length (tasks s)
         \<and> unat (get_tasks_running s) = executing s"
proof -
  from exec_counter [OF assms(1) counter_ok_thread_pool(1) assms(2)]
  have "counter_ok s" .
  from counts_of_counter_ok [OF this] show ?thesis by simp
qed

theorem counts_identity_witness:
  "counter_fits [Push (plain_task (Inr ())), Push (plain_task (Inr ())), Worker 0]
     (thread_pool 1 :: (unit, unit) pool)
   \<and> (\<exists>s. exec [Push (plain_task (Inr ())), Push (plain_task (Inr ())), Worker 0]
            (thread_pool 1 :: (unit, unit) pool) = Inr s
          \<and> get_tasks_queued s = 1 \<and> get_tasks_running s = 1 \<and> get_tasks_total s = 2
          \<and> get_tasks_queued s + ucast (get_tasks_running s) = ucast (get_tasks_total s))"
proof -
  let ?sched = "[Push (plain_task (Inr ())), Push (plain_task (Inr ())), Worker 0]
                :: (unit, unit) action list"
  have e: "counter_fits ?sched (thread_pool 1 :: (unit, unit) pool)"
    by (simp add: is_enqueue_def eval_defs)
  obtain s where s: "exec ?sched (thread_pool 1 :: (unit, unit) pool) = Inr s"
    and c: "get_tasks_queued s = 1" "get_tasks_running s = 1" "get_tasks_total s = 2"
    by (simp add: eval_defs get_tasks_queued_def get_tasks_running_def get_tasks_total_def
        get_tasks_total_unprotected_def)
  from counts_identity [OF s e]
  have i: "get_tasks_queued s + ucast (get_tasks_running s) = ucast (get_tasks_total s)"
    by (rule conjunct1)
  from e s c i show ?thesis by blast
qed

section \<open>Waiting for the tasks\<close>

text \<open>
  Claim C4. \<^verbatim>\<open>wait_for_tasks\<close> is to return when its predicate holds: the total count is 0
  when the pool is not paused, the running count is 0 when it is, whatever is queued. The
  predicate of the code is that one, and the call changes nothing itself; but the caller
  sleeps on \<^verbatim>\<open>tasks_done_condition_variable\<close>, which only a worker that completes a task
  notifies (line 376): \<^verbatim>\<open>pause\<close> (lines 314-316) notifies nobody. Take a pool of one thread
  that is not paused, with one task queued, and a caller of \<^verbatim>\<open>wait_for_tasks\<close>: the
  predicate does not hold and the caller sleeps. Another thread now pauses the pool. From
  then on the predicate holds (nothing runs, one task is queued), no task-done notification
  has been sent, and however many steps \<open>k\<close> the worker goes on for, the pool stays as it
  is and the call has not returned: the result \<open>None\<close> is a caller still asleep at the end
  of the schedule. A wake-up after the pause, which nothing in the code sends, would return.
  Where a notification does arrive the paused branch of the predicate decides as
  documented: with a task running and a task queued in a paused pool, the caller goes on
  sleeping at a wake-up while the task runs, and returns at the wake-up after its
  completion, with one task still queued.
\<close>

theorem wait_for_tasks_misses_pause:
  "\<not> tasks_done_pred (push_task (plain_task (Inr ())) (thread_pool 1 :: (unit, unit) pool))
   \<and> exec (Pause # replicate k (Worker 0))
        (push_task (plain_task (Inr ())) (thread_pool 1 :: (unit, unit) pool))
       = Inr (pause (push_task (plain_task (Inr ())) (thread_pool 1)))
   \<and> tasks_done_pred
        (pause (push_task (plain_task (Inr ())) (thread_pool 1 :: (unit, unit) pool)))
   \<and> get_tasks_running
        (pause (push_task (plain_task (Inr ())) (thread_pool 1 :: (unit, unit) pool))) = 0
   \<and> get_tasks_queued
        (pause (push_task (plain_task (Inr ())) (thread_pool 1 :: (unit, unit) pool))) = 1
   \<and> tasks_done_signals (events
        (pause (push_task (plain_task (Inr ())) (thread_pool 1 :: (unit, unit) pool)))) = []
   \<and> wait_for_tasks (Pause # replicate k (Worker 0))
        (push_task (plain_task (Inr ())) (thread_pool 1 :: (unit, unit) pool)) = None
   \<and> wait_for_tasks [Pause, Wake]
        (push_task (plain_task (Inr ())) (thread_pool 1 :: (unit, unit) pool))
       = Some (Inr (pause (push_task (plain_task (Inr ())) (thread_pool 1)), []))
   \<and> wait_for_tasks [Worker 0, Pause, Wake]
        (push_task (plain_task (Inr ())) (push_task (plain_task (Inr ()))
           (thread_pool 1 :: (unit, unit) pool))) = None
   \<and> map_option (map_sum id
        ((\<lambda>s. (paused s, get_tasks_running s, get_tasks_queued s)) \<circ> fst))
        (wait_for_tasks [Worker 0, Pause, Wake, Worker 0, Wake]
           (push_task (plain_task (Inr ())) (push_task (plain_task (Inr ()))
              (thread_pool 1 :: (unit, unit) pool))))
       = Some (Inr (True, 0, 1))"
proof -
  let ?r = "push_task (plain_task (Inr ())) (thread_pool 1 :: (unit, unit) pool)"
  let ?r2 = "push_task (plain_task (Inr ())) ?r"
  have idle: "worker 0 (pause ?r) = Inr (pause ?r)"
    by (simp add: eval_defs)
  have 1: "\<not> tasks_done_pred ?r"
    by (simp add: eval_defs)
  have 2: "exec (Pause # replicate k (Worker 0)) ?r = Inr (pause ?r)"
    using exec_replicate_idle [OF idle, of k] by simp
  have 3: "tasks_done_pred (pause ?r)" "get_tasks_running (pause ?r) = 0"
    "get_tasks_queued (pause ?r) = 1"
    by (simp_all add: eval_defs get_tasks_running_def get_tasks_queued_def)
  have 4: "tasks_done_signals (events (pause ?r)) = []"
    by (simp add: eval_defs tasks_done_signals_def)
  have 5: "wait_for_tasks (Pause # replicate k (Worker 0)) ?r = None"
    using 1 cv_sleep_replicate_idle [OF idle, of tasks_done_pred k]
    by (simp add: wait_for_tasks_def cv_wait_def)
  have 6: "wait_for_tasks [Pause, Wake] ?r = Some (Inr (pause ?r, []))"
    using 1 3(1) by (simp add: wait_for_tasks_def cv_wait_def)
  have 7: "wait_for_tasks [Worker 0, Pause, Wake] ?r2 = None"
    by (simp add: eval_defs)
  have 8: "map_option (map_sum id
        ((\<lambda>s. (paused s, get_tasks_running s, get_tasks_queued s)) \<circ> fst))
        (wait_for_tasks [Worker 0, Pause, Wake, Worker 0, Wake] ?r2)
       = Some (Inr (True, 0, 1))"
    by (simp add: eval_defs get_tasks_running_def get_tasks_queued_def)
  from 1 2 3 4 5 6 7 8 show ?thesis
    by (intro conjI) assumption+
qed

section \<open>The partition of \<^verbatim>\<open>parallelize_loop\<close>\<close>




end
